theory Spec2Isabelle
  imports Main "HOL-Library.Word" "HOL-Library.Sublist"
begin

unbundle bit_operations_syntax

section \<open>Shader library (draw\_manager\_shader.c, "Shader Library")\<close>

text \<open>
  \<^verbatim>\<open>#define MAX_LIB 64\<close>, \<^verbatim>\<open>#define MAX_LIB_NAME 64\<close>. The three arrays of
  \<^verbatim>\<open>struct DRWShaderLibrary\<close> are lists; a \<^verbatim>\<open>NULL\<close> entry of \<^verbatim>\<open>libs\<close> is
  \<open>None\<close>. C strings are \<open>string\<close>s without the terminating NUL.
\<close>

definition MAX_LIB :: nat where
  "MAX_LIB = 64"

definition MAX_LIB_NAME :: nat where
  "MAX_LIB_NAME = 64"

record DRWShaderLibrary =
  libs :: "string option list"
  libs_name :: "string list"
  libs_deps :: "64 word list"

datatype log_entry =
    DependencyNotFound string
  | TooManyLibraries string

datatype error =
    OutOfBounds
  | NullDeref
  | AssertFailed

text \<open>\<^verbatim>\<open>DRW_shader_library_create\<close>: \<^verbatim>\<open>MEM_callocN\<close> gives zeroed arrays.\<close>

definition DRW_shader_library_create :: DRWShaderLibrary where
  "DRW_shader_library_create =
     \<lparr>libs = replicate MAX_LIB None,
      libs_name = replicate MAX_LIB [],
      libs_deps = replicate MAX_LIB 0\<rparr>"

text \<open>
  \<^verbatim>\<open>strncmp(a, b, n) == 0\<close>: the first \<open>n\<close> characters (or all of them, when a
  string ends earlier) agree.
\<close>

definition strncmp_eq :: "string \<Rightarrow> string \<Rightarrow> nat \<Rightarrow> bool" where
  "strncmp_eq a b n = (take n a = take n b)"

text \<open>
  \<^verbatim>\<open>drw_shader_library_search\<close>: the loop over \<open>i = 0 .. MAX_LIB - 1\<close>, returning
  at the first match and breaking at the first \<^verbatim>\<open>NULL\<close> slot; \<open>-1\<close> is \<open>None\<close>.
\<close>

primrec search_loop :: "DRWShaderLibrary \<Rightarrow> string \<Rightarrow> nat list \<Rightarrow> nat option" where
  "search_loop lib name [] = None"
| "search_loop lib name (i # is) =
     (if libs lib ! i \<noteq> None then
        (if strncmp_eq (libs_name lib ! i) name (length (libs_name lib ! i)) then Some i
         else search_loop lib name is)
      else None)"

definition drw_shader_library_search :: "DRWShaderLibrary \<Rightarrow> string \<Rightarrow> nat option" where
  "drw_shader_library_search lib name = search_loop lib name [0..<MAX_LIB]"

text \<open>
  \<^verbatim>\<open>strstr(haystack, needle)\<close>: the suffix of the haystack at the first occurrence
  of the needle, \<open>None\<close> for \<^verbatim>\<open>NULL\<close>.
\<close>

primrec strstr :: "string \<Rightarrow> string \<Rightarrow> string option" where
  "strstr [] needle = (if needle = [] then Some [] else None)"
| "strstr (c # cs) needle =
     (if prefix needle (c # cs) then Some (c # cs) else strstr cs needle)"

text \<open>
  The inner loop of \<^verbatim>\<open>drw_shader_dependencies_get\<close> that copies the unresolved name
  into \<^verbatim>\<open>char dbg_name[MAX_NAME]\<close>:
  \<^verbatim>\<open>while ((*haystack != ')') && (i < (sizeof(dbg_name) - 2)))\<close>.
  \<open>cap\<close> is \<^verbatim>\<open>sizeof(dbg_name)\<close>; the subtraction is in \<^verbatim>\<open>size_t\<close> and wraps.
  The loop has no test for the end of the string: when it stands on the
  terminating NUL with room left, it steps past the end of the source text, which is
  the result \<open>Inl OutOfBounds\<close>; so is a write past the end of \<open>dbg_name\<close>.
  The result is the name copied and the haystack the loop leaves behind.
\<close>

definition dbg_limit :: "nat \<Rightarrow> nat" where
  "dbg_limit cap = nat ((int cap - 2) mod 2 ^ 64)"

primrec dbg_name_scan :: "nat \<Rightarrow> nat \<Rightarrow> string \<Rightarrow> error + (string \<times> string)" where
  "dbg_name_scan cap i [] =
     (if i < dbg_limit cap then Inl OutOfBounds
      else if i < cap then Inr ([], []) else Inl OutOfBounds)"
| "dbg_name_scan cap i (c # cs) =
     (if c \<noteq> CHR '')'' \<and> i < dbg_limit cap then
        (if i < cap then
           (case dbg_name_scan cap (Suc i) cs of
              Inl e \<Rightarrow> Inl e
            | Inr (nm, rest) \<Rightarrow> Inr (c # nm, rest))
         else Inl OutOfBounds)
      else if i < cap then Inr ([], c # cs) else Inl OutOfBounds)"

text \<open>
  \<^verbatim>\<open>drw_shader_dependencies_get\<close>: the \<^verbatim>\<open>while ((haystack = strstr(...)))\<close> loop.
  With an empty \<open>pragma_str\<close> the loop of the source need not end, so the function is
  partial: \<open>None\<close> is "does not return". The result carries the bitmap and the
  messages given to \<^verbatim>\<open>CLOG_INFO\<close>. \<open>max_name\<close> is \<^verbatim>\<open>MAX_NAME\<close>, a constant of
  \<^verbatim>\<open>DNA_defs.h\<close>.
\<close>

partial_function (option) deps_loop ::
  "nat \<Rightarrow> DRWShaderLibrary \<Rightarrow> string \<Rightarrow> string \<Rightarrow> 64 word \<Rightarrow> log_entry list
     \<Rightarrow> (error + (64 word \<times> log_entry list)) option" where
  "deps_loop max_name lib pragma_str haystack deps lg =
     (case strstr haystack pragma_str of
        None \<Rightarrow> Some (Inr (deps, lg))
      | Some found \<Rightarrow>
          (let haystack1 = drop (length pragma_str) found in
           case drw_shader_library_search lib haystack1 of
             None \<Rightarrow>
               (case dbg_name_scan max_name 0 haystack1 of
                  Inl e \<Rightarrow> Some (Inl e)
                | Inr (dbg_name, haystack2) \<Rightarrow>
                    deps_loop max_name lib pragma_str haystack2 deps
                      (lg @ [DependencyNotFound dbg_name]))
           | Some dep \<Rightarrow>
               deps_loop max_name lib pragma_str haystack1 (deps OR push_bit dep 1) lg))"

declare deps_loop.simps [code]

definition drw_shader_dependencies_get ::
  "nat \<Rightarrow> DRWShaderLibrary \<Rightarrow> string \<Rightarrow> string
     \<Rightarrow> (error + (64 word \<times> log_entry list)) option" where
  "drw_shader_dependencies_get max_name lib pragma_str lib_code =
     deps_loop max_name lib pragma_str lib_code 0 []"

text \<open>
  Modelled from the spec: \<^verbatim>\<open>BLI_strncpy\<close> (BLI string utilities) is not among the
  sources; the registry stores the name in a slot of \<open>MAX_LIB_NAME\<close> bytes, so at most
  \<open>maxncpy - 1\<close> characters and the terminator are kept.
\<close>

definition BLI_strncpy :: "string \<Rightarrow> nat \<Rightarrow> string" where
  "BLI_strncpy src maxncpy = take (maxncpy - 1) src"

text \<open>The first loop of \<^verbatim>\<open>DRW_shader_library_add_file\<close>: the first \<^verbatim>\<open>NULL\<close> slot.\<close>

primrec free_slot_loop :: "DRWShaderLibrary \<Rightarrow> nat list \<Rightarrow> nat option" where
  "free_slot_loop lib [] = None"
| "free_slot_loop lib (i # is) =
     (if libs lib ! i = None then Some i else free_slot_loop lib is)"

text \<open>
  \<^verbatim>\<open>DRW_shader_library_add_file\<close>. The slot's text and name are stored before the
  directives of \<open>lib_code\<close> are looked up. When no slot is free the source prints and
  runs \<^verbatim>\<open>BLI_assert(0)\<close>; whether a failed \<^verbatim>\<open>BLI_assert\<close> aborts is decided by the
  build (the macro is not among the sources), so it is the parameter \<open>assert_abort\<close>.
\<close>

definition DRW_shader_library_add_file ::
  "bool \<Rightarrow> nat \<Rightarrow> DRWShaderLibrary \<Rightarrow> string \<Rightarrow> string
     \<Rightarrow> (error + (DRWShaderLibrary \<times> log_entry list)) option" where
  "DRW_shader_library_add_file assert_abort max_name lib lib_code lib_name =
     (case free_slot_loop lib [0..<MAX_LIB] of
        Some index \<Rightarrow>
          (let lib1 = lib\<lparr>libs := (libs lib)[index := Some lib_code]\<rparr>;
               lib2 = lib1\<lparr>libs_name :=
                        (libs_name lib1)[index := BLI_strncpy lib_name MAX_LIB_NAME]\<rparr>
           in case drw_shader_dependencies_get max_name lib2 ''BLENDER_REQUIRE('' lib_code of
                None \<Rightarrow> None
              | Some (Inl e) \<Rightarrow> Some (Inl e)
              | Some (Inr (deps, lg)) \<Rightarrow>
                  Some (Inr (lib2\<lparr>libs_deps := (libs_deps lib2)[index := deps]\<rparr>, lg)))
      | None \<Rightarrow>
          (if assert_abort then Some (Inl AssertFailed)
           else Some (Inr (lib, [TooManyLibraries lib_name]))))"

text \<open>
  \<^verbatim>\<open>DRW_shader_library_create_shader_string\<close>: the backward pass
  \<^verbatim>\<open>for (int i = MAX_LIB - 1; i > -1; i--)\<close>, then the concatenation loop
  \<^verbatim>\<open>for (int i = 0; i < MAX_LIB && deps != 0llu; i++, deps >>= 1llu)\<close>.
  Appending a \<^verbatim>\<open>NULL\<close> text to the \<^verbatim>\<open>DynStr\<close> is \<open>Inl NullDeref\<close>.
\<close>

definition close_deps_step :: "DRWShaderLibrary \<Rightarrow> nat \<Rightarrow> 64 word \<Rightarrow> 64 word" where
  "close_deps_step lib i deps =
     (if libs lib ! i \<noteq> None \<and> (deps AND push_bit i 1) \<noteq> 0
      then deps OR libs_deps lib ! i else deps)"

definition close_deps :: "DRWShaderLibrary \<Rightarrow> 64 word \<Rightarrow> 64 word" where
  "close_deps lib deps = fold (close_deps_step lib) (rev [0..<MAX_LIB]) deps"

primrec concat_loop ::
  "DRWShaderLibrary \<Rightarrow> nat list \<Rightarrow> 64 word \<Rightarrow> string \<Rightarrow> error + string" where
  "concat_loop lib [] deps ds = Inr ds"
| "concat_loop lib (i # is) deps ds =
     (if deps = 0 then Inr ds
      else if (deps AND 1) \<noteq> 0 then
        (case libs lib ! i of
           None \<Rightarrow> Inl NullDeref
         | Some text \<Rightarrow> concat_loop lib is (drop_bit 1 deps) (ds @ text))
      else concat_loop lib is (drop_bit 1 deps) ds)"

definition DRW_shader_library_create_shader_string ::
  "nat \<Rightarrow> DRWShaderLibrary \<Rightarrow> string \<Rightarrow> (error + (string \<times> log_entry list)) option" where
  "DRW_shader_library_create_shader_string max_name lib shader_code =
     (case drw_shader_dependencies_get max_name lib ''BLENDER_REQUIRE('' shader_code of
        None \<Rightarrow> None
      | Some (Inl e) \<Rightarrow> Some (Inl e)
      | Some (Inr (deps, lg)) \<Rightarrow>
          (case concat_loop lib [0..<MAX_LIB] (close_deps lib deps) [] of
             Inl e \<Rightarrow> Some (Inl e)
           | Inr ds \<Rightarrow> Some (Inr (ds @ shader_code, lg))))"

text \<open>
  A library built by a sequence of \<open>register\<close> calls (pairs of source and name) on a
  fresh library, with the messages of all calls.
\<close>

primrec add_files ::
  "bool \<Rightarrow> nat \<Rightarrow> DRWShaderLibrary \<Rightarrow> (string \<times> string) list
     \<Rightarrow> (error + (DRWShaderLibrary \<times> log_entry list)) option" where
  "add_files assert_abort max_name lib [] = Some (Inr (lib, []))"
| "add_files assert_abort max_name lib (r # rs) =
     (case DRW_shader_library_add_file assert_abort max_name lib (fst r) (snd r) of
        None \<Rightarrow> None
      | Some (Inl e) \<Rightarrow> Some (Inl e)
      | Some (Inr (lib1, lg1)) \<Rightarrow>
          (case add_files assert_abort max_name lib1 rs of
             None \<Rightarrow> None
           | Some (Inl e) \<Rightarrow> Some (Inl e)
           | Some (Inr (lib2, lg2)) \<Rightarrow> Some (Inr (lib2, lg1 @ lg2))))"

text \<open>
  The reference definition of the set of required fragments, in the words of the
  specification: the least set of slot indices that holds the direct dependencies
  \<open>deps\<close> of the shader source and, with every occupied slot in it, the stored
  dependencies of that slot.
\<close>

inductive_set required_closure :: "DRWShaderLibrary \<Rightarrow> 64 word \<Rightarrow> nat set"
  for lib :: DRWShaderLibrary and deps :: "64 word" where
  direct: "bit deps j \<Longrightarrow> j \<in> required_closure lib deps"
| via: "i \<in> required_closure lib deps \<Longrightarrow> i < MAX_LIB \<Longrightarrow> libs lib ! i \<noteq> None
         \<Longrightarrow> bit (libs_deps lib ! i) j \<Longrightarrow> j \<in> required_closure lib deps"

text \<open>The registry is full: no slot is \<^verbatim>\<open>NULL\<close>.\<close>

definition registry_full :: "DRWShaderLibrary \<Rightarrow> bool" where
  "registry_full lib = list_all (\<lambda>i. libs lib ! i \<noteq> None) [0..<MAX_LIB]"

text \<open>
  Every stored dependency of an occupied slot is a strictly lower index
  (\<open>deps_strictly_below\<close>), or an index not above the slot's own (\<open>deps_not_above\<close>,
  which allows a fragment to name itself).
\<close>

definition deps_strictly_below :: "DRWShaderLibrary \<Rightarrow> bool" where
  "deps_strictly_below lib =
     list_all (\<lambda>i. libs lib ! i \<noteq> None \<longrightarrow> take_bit i (libs_deps lib ! i) = libs_deps lib ! i)
       [0..<MAX_LIB]"

definition deps_not_above :: "DRWShaderLibrary \<Rightarrow> bool" where
  "deps_not_above lib =
     list_all (\<lambda>i. libs lib ! i \<noteq> None \<longrightarrow>
                 take_bit (Suc i) (libs_deps lib ! i) = libs_deps lib ! i)
       [0..<MAX_LIB]"

text \<open>
  The invariant of the backward pass when the slots \<open>k, ..., MAX_LIB - 1\<close> have been
  visited, for the initial bitmap \<open>D\<close> and the present one \<open>d\<close>.
\<close>

definition pass_inv :: "DRWShaderLibrary \<Rightarrow> 64 word \<Rightarrow> nat \<Rightarrow> 64 word \<Rightarrow> bool" where
  "pass_inv lib D k d \<longleftrightarrow>
     (\<forall>j. bit D j \<longrightarrow> bit d j) \<and> (\<forall>j. bit d j \<longrightarrow> j \<in> required_closure lib D) \<and>
     (\<forall>i j. k \<le> i \<and> i < MAX_LIB \<and> libs lib ! i \<noteq> None \<and> bit d i \<and> bit (libs_deps lib ! i) j
         \<longrightarrow> bit d j)"

text \<open>
  Every occurrence of the directive in a source text is followed, somewhere, by a
  closing parenthesis; and the size of the name buffer is one that \<^verbatim>\<open>sizeof\<close> can
  give and leaves room for the two bytes the copy loop reserves.
\<close>

primrec directives_closed :: "string \<Rightarrow> string \<Rightarrow> bool" where
  "directives_closed pragma_str [] = True"
| "directives_closed pragma_str (c # cs) =
     ((prefix pragma_str (c # cs) \<longrightarrow> CHR '')'' \<in> set (drop (length pragma_str) (c # cs)))
      \<and> directives_closed pragma_str cs)"

definition name_buffer_ok :: "nat \<Rightarrow> bool" where
  "name_buffer_ok cap \<longleftrightarrow> 2 \<le> cap \<and> cap < 2 ^ 64"

text \<open>
  What registration keeps true of a library: the arrays have their \<open>MAX_LIB\<close> entries,
  the occupied slots are the first \<open>n\<close>, and the stored dependencies of an occupied
  slot are slots not above it.
\<close>

definition lib_inv :: "DRWShaderLibrary \<Rightarrow> bool" where
  "lib_inv lib \<longleftrightarrow>
     length (libs lib) = MAX_LIB \<and> length (libs_name lib) = MAX_LIB
     \<and> length (libs_deps lib) = MAX_LIB
     \<and> (\<exists>n\<le>MAX_LIB. \<forall>i<MAX_LIB. (libs lib ! i \<noteq> None) = (i < n))
     \<and> (\<forall>i<MAX_LIB. libs lib ! i \<noteq> None \<longrightarrow> (\<forall>j. bit (libs_deps lib ! i) j \<longrightarrow> j \<le> i))"

text \<open>
  The directives of a source text, read from the text alone. A directive stands
  wherever the directive string occurs; \<open>directive_rests\<close> lists, in textual order,
  the text behind each directive, and the name a directive states is that text up to
  the closing parenthesis.
\<close>

primrec directive_rests :: "string \<Rightarrow> string \<Rightarrow> string list" where
  "directive_rests pragma_str [] = []"
| "directive_rests pragma_str (c # cs) =
     (if prefix pragma_str (c # cs) then [drop (length pragma_str) (c # cs)] else [])
     @ directive_rests pragma_str cs"

definition directive_name :: "string \<Rightarrow> string" where
  "directive_name rest = takeWhile (\<lambda>c. c \<noteq> CHR '')'') rest"

definition directive_names :: "string \<Rightarrow> string list" where
  "directive_names code = map directive_name (directive_rests ''BLENDER_REQUIRE('' code)"

text \<open>
  The reference definition of "required", in the words of the specification, over the
  sequence \<open>regs\<close> of \<open>register\<close> calls (source text and name of each, in the order
  of the calls): a source requires directly the fragments registered under the names
  its directives state, and a shader source requires transitively what it requires
  directly and what a required fragment's text requires. Fragments are numbered in
  registration order.
\<close>

definition named_fragments :: "(string \<times> string) list \<Rightarrow> string \<Rightarrow> nat set" where
  "named_fragments regs code =
     set (filter (\<lambda>k. snd (regs ! k) \<in> set (directive_names code)) [0..<length regs])"

inductive_set required_by_name :: "(string \<times> string) list \<Rightarrow> string \<Rightarrow> nat set"
  for regs :: "(string \<times> string) list" and shader_code :: string where
  named: "j \<in> named_fragments regs shader_code \<Longrightarrow> j \<in> required_by_name regs shader_code"
| nested: "i \<in> required_by_name regs shader_code
           \<Longrightarrow> j \<in> named_fragments regs (fst (regs ! i))
           \<Longrightarrow> j \<in> required_by_name regs shader_code"

text \<open>
  Conditions on a sequence of \<open>register\<close> calls and on a shader source. The names
  fit the name slot, hold no closing parenthesis, and none is a prefix of another
  (\<open>names_ok\<close>); every directive of a fragment states the name of a fragment
  registered before it (\<open>registered_in_order\<close>); every directive of the shader source
  states a registered name (\<open>source_resolves\<close>).
\<close>

definition names_ok :: "(string \<times> string) list \<Rightarrow> bool" where
  "names_ok regs \<longleftrightarrow>
     list_all (\<lambda>nm. length nm < MAX_LIB_NAME \<and> CHR '')'' \<notin> set nm) (map snd regs)
     \<and> list_all (\<lambda>i. list_all (\<lambda>j. prefix (snd (regs ! i)) (snd (regs ! j)) \<longrightarrow> i = j)
                       [0..<length regs]) [0..<length regs]"

definition registered_in_order :: "(string \<times> string) list \<Rightarrow> bool" where
  "registered_in_order regs =
     list_all (\<lambda>k. set (directive_names (fst (regs ! k))) \<subseteq> set (map snd (take k regs)))
       [0..<length regs]"

definition source_resolves :: "(string \<times> string) list \<Rightarrow> string \<Rightarrow> bool" where
  "source_resolves regs code \<longleftrightarrow> set (directive_names code) \<subseteq> set (map snd regs)"

text \<open>
  What the scan of a text looks up in a library: the names of the directives whose
  lookup fails, in textual order (\<open>missing_names\<close>), and the slots the lookups of the
  other directives return (\<open>lookup_targets\<close>).
\<close>

definition missing_names :: "DRWShaderLibrary \<Rightarrow> string \<Rightarrow> string \<Rightarrow> string list" where
  "missing_names lib pragma_str code =
     map directive_name
       (filter (\<lambda>r. drw_shader_library_search lib r = None) (directive_rests pragma_str code))"

definition lookup_targets :: "DRWShaderLibrary \<Rightarrow> string \<Rightarrow> string \<Rightarrow> nat set" where
  "lookup_targets lib pragma_str code =
     set (List.map_filter (drw_shader_library_search lib) (directive_rests pragma_str code))"

text \<open>
  The text behind a directive is closed by a parenthesis, the name before it has room
  in the name buffer of \<open>cap\<close> bytes, and no directive stands inside the name
  (\<open>name_fits\<close>); and this holds of every directive of a text whose lookup fails
  (\<open>missing_fit\<close>).
\<close>

definition name_fits :: "nat \<Rightarrow> string \<Rightarrow> string \<Rightarrow> bool" where
  "name_fits cap pragma_str rest \<longleftrightarrow>
     name_buffer_ok cap \<and> CHR '')'' \<in> set rest \<and> length (directive_name rest) \<le> cap - 2
     \<and> directive_rests pragma_str (directive_name rest) = []"

definition missing_fit :: "nat \<Rightarrow> DRWShaderLibrary \<Rightarrow> string \<Rightarrow> string \<Rightarrow> bool" where
  "missing_fit cap lib pragma_str code =
     list_all (\<lambda>r. drw_shader_library_search lib r = None \<longrightarrow> name_fits cap pragma_str r)
       (directive_rests pragma_str code)"

text \<open>
  The library inside \<^verbatim>\<open>DRW_shader_library_add_file\<close> when the text and the name have
  been stored in the slot \<open>index\<close> and the directives are about to be looked up.
\<close>

definition store_slot :: "DRWShaderLibrary \<Rightarrow> nat \<Rightarrow> string \<Rightarrow> string \<Rightarrow> DRWShaderLibrary" where
  "store_slot lib index lib_code lib_name =
     lib\<lparr>libs := (libs lib)[index := Some lib_code],
         libs_name := (libs_name lib)[index := BLI_strncpy lib_name MAX_LIB_NAME]\<rparr>"

text \<open>
  The library after the first \<open>k\<close> calls of the sequence \<open>regs\<close>: the first \<open>k\<close> slots
  hold the texts and names of the calls, and the stored dependencies of each are the
  fragments its text requires directly.
\<close>

definition reg_inv :: "(string \<times> string) list \<Rightarrow> nat \<Rightarrow> DRWShaderLibrary \<Rightarrow> bool" where
  "reg_inv regs k lib \<longleftrightarrow>
     length (libs lib) = MAX_LIB \<and> length (libs_name lib) = MAX_LIB
     \<and> length (libs_deps lib) = MAX_LIB
     \<and> (\<forall>i<MAX_LIB. libs lib ! i = (if i < k then Some (fst (regs ! i)) else None))
     \<and> (\<forall>i<k. libs_name lib ! i = snd (regs ! i))
     \<and> (\<forall>i<k. {j. bit (libs_deps lib ! i) j} = named_fragments regs (fst (regs ! i)))"

section \<open>Deferred compilation (draw\_manager\_shader.c, "Deferred Compilation")\<close>

text \<open>
  Pointers are natural numbers. A \<^verbatim>\<open>GPUMaterial\<close> is known by its pointer and its
  status; a \<^verbatim>\<open>DRWDeferredShader\<close> is a heap cell that holds the pointer of its
  material (the \<^verbatim>\<open>prev\<close>/\<^verbatim>\<open>next\<close> links are the position in the list that holds
  it). A \<^verbatim>\<open>ListBase\<close> is the list of the pointers of its elements, head first.
\<close>

datatype eGPUMaterialStatus = GPU_MAT_FAILED | GPU_MAT_CREATED | GPU_MAT_QUEUED | GPU_MAT_SUCCESS

datatype thread = MainThread | WorkerThread nat

text \<open>
  \<^verbatim>\<open>struct DRWShaderCompiler\<close>. A lock is \<open>None\<close> when free and names its holder
  otherwise; a \<^verbatim>\<open>NULL\<close> context is \<open>None\<close>.
\<close>

record DRWShaderCompiler =
  queue :: "nat list"
  queue_conclude :: "nat list"
  list_lock :: "thread option"
  mat_compiling :: "nat option"
  compilation_lock :: "thread option"
  gl_context :: "nat option"
  gpu_context :: "nat option"
  own_context :: bool
  shaders_done :: int

text \<open>
  Where a thread stands. The worker of a compiler runs
  \<^verbatim>\<open>drw_deferred_shader_compilation_exec\<close>: \<open>W_Top\<close> is the head of the loop (line
  112, no lock held), \<open>W_WantMutex\<close> is line 133 (a request popped, the list lock
  held, the compilation lock wanted), \<open>W_Compiling\<close> is line 137 before the call of
  \<^verbatim>\<open>GPU_material_compile\<close> returns (compilation lock held), \<open>W_Compiled\<close> the lines
  139 to 145 after it, \<open>W_After\<close> line 147 (no lock held, the list lock wanted).
  The main thread inside \<^verbatim>\<open>DRW_deferred_shader_remove\<close> for a material is either
  between two compilers (\<open>R_Visit\<close>, with the compilers still to visit) or stands at
  line 303 in one of them with the list lock held (\<open>R_Wait\<close>, with the request it
  unlinked).
\<close>

datatype worker_pc =
  W_NotStarted | W_Top | W_WantMutex | W_Compiling | W_Compiled | W_After | W_Exited

datatype remover_pc =
    R_Idle
  | R_Visit nat "nat option list"
  | R_Wait nat nat "nat option" "nat option list"

text \<open>
  What the file takes from outside: \<^verbatim>\<open>DST.draw_ctx.evil_C != NULL\<close>,
  \<^verbatim>\<open>DRW_state_is_image_render()\<close>, \<^verbatim>\<open>GPU_use_main_context_workaround()\<close>, the
  contexts of the draw manager, and the status \<^verbatim>\<open>GPU_material_compile\<close> leaves a
  material in.
\<close>

record DST_env =
  evil_C :: bool
  is_image_render :: bool
  use_main_context_workaround :: bool
  DST_gl_context :: nat
  DST_gpu_context :: nat
  compile_result :: "nat \<Rightarrow> eGPUMaterialStatus"

text \<open>
  The state: the heap of requests (\<open>deferred_shaders\<close>, pointer to material), the heap
  of compilers, the status of every material, the calls of \<^verbatim>\<open>GPU_material_compile\<close>
  made so far (the material of each, oldest first), the GL contexts created and not
  disposed, the custom data of the "Shaders Compilation" job, the next pointer
  \<^verbatim>\<open>MEM_callocN\<close> and the context constructors give out, and where the threads stand.
\<close>

record drw_world =
  deferred_shaders :: "nat \<rightharpoonup> nat"
  compilers :: "nat \<rightharpoonup> DRWShaderCompiler"
  mat_status :: "nat \<Rightarrow> eGPUMaterialStatus"
  gpu_calls :: "nat list"
  gl_contexts :: "nat list"
  job_customdata :: "nat option"
  next_ptr :: nat
  worker :: "nat \<Rightarrow> worker_pc"
  remover :: remover_pc

definition USE_DEFERRED_COMPILATION :: bool where
  "USE_DEFERRED_COMPILATION = True"

text \<open>
  Modelled from the spec: \<^verbatim>\<open>GPU_material_compile\<close> (the GPU backend's
  \<open>compile(unit) -> success | error\<close>) is not among the sources; the call is recorded
  and sets the status the environment gives.
\<close>

definition GPU_material_compile :: "DST_env \<Rightarrow> nat \<Rightarrow> drw_world \<Rightarrow> drw_world" where
  "GPU_material_compile env mat st =
     st\<lparr>mat_status := (mat_status st)(mat := compile_result env mat),
        gpu_calls := gpu_calls st @ [mat]\<rparr>"

text \<open>
  Modelled from the spec: the list functions of \<^verbatim>\<open>BLI_listbase\<close> are not among the
  sources; the queue is "an ordered sequence", appended at the tail.
\<close>

definition BLI_addtail :: "nat list \<Rightarrow> nat \<Rightarrow> nat list" where
  "BLI_addtail lb v = lb @ [v]"

definition BLI_poptail :: "nat list \<Rightarrow> nat option \<times> nat list" where
  "BLI_poptail lb = (if lb = [] then (None, []) else (Some (last lb), butlast lb))"

definition BLI_remlink :: "nat list \<Rightarrow> nat \<Rightarrow> nat list" where
  "BLI_remlink lb v = remove1 v lb"

definition BLI_findptr :: "nat list \<Rightarrow> (nat \<rightharpoonup> nat) \<Rightarrow> nat \<Rightarrow> nat option" where
  "BLI_findptr lb heap mat = find (\<lambda>d. heap d = Some mat) lb"

text \<open>\<^verbatim>\<open>drw_deferred_shader_free\<close>: \<^verbatim>\<open>MEM_freeN(dsh)\<close>.\<close>

definition drw_deferred_shader_free :: "nat \<Rightarrow> drw_world \<Rightarrow> drw_world" where
  "drw_deferred_shader_free dsh st = st\<lparr>deferred_shaders := (deferred_shaders st)(dsh := None)\<rparr>"

definition free_found :: "nat option \<Rightarrow> drw_world \<Rightarrow> drw_world" where
  "free_found dsh st = (case dsh of None \<Rightarrow> st | Some d \<Rightarrow> drw_deferred_shader_free d st)"

definition set_compiler :: "nat \<Rightarrow> DRWShaderCompiler \<Rightarrow> drw_world \<Rightarrow> drw_world" where
  "set_compiler c cp st = st\<lparr>compilers := (compilers st)(c \<mapsto> cp)\<rparr>"

text \<open>
  \<^verbatim>\<open>DRW_deferred_shader_remove\<close>, the body of the loops for one compiler, lines 293
  to 302 under the list lock: the request of the material is looked up in the queue
  and unlinked, and the test of line 302 says whether the caller has to wait for the
  compilation lock. \<open>None\<close>: the list lock is taken (the caller spins), or the pointer
  is not a live compiler.
\<close>

definition remove_critical ::
  "nat \<Rightarrow> nat \<Rightarrow> drw_world \<Rightarrow> (drw_world \<times> nat option \<times> bool) option" where
  "remove_critical mat c st =
     (case compilers st c of
        None \<Rightarrow> None
      | Some cp \<Rightarrow>
          if list_lock cp \<noteq> None then None
          else
            let dsh = BLI_findptr (queue cp) (deferred_shaders st) mat;
                q = (case dsh of None \<Rightarrow> queue cp | Some d \<Rightarrow> BLI_remlink (queue cp) d);
                wait = (case mat_compiling cp of
                          None \<Rightarrow> False
                        | Some d \<Rightarrow> deferred_shaders st d = Some mat)
            in Some (set_compiler c (cp\<lparr>queue := q\<rparr>) st, dsh, wait))"

text \<open>
  The whole call, run by the main thread alone: \<open>jobs\<close> is what
  \<^verbatim>\<open>WM_jobs_customdata_get\<close> gives at each turn of the loops over the window managers
  with a running job and their windows (the window manager is not among the sources).
  \<open>None\<close>: the call has to wait for a lock that a worker holds.
\<close>

definition remove_visit :: "nat \<Rightarrow> nat \<Rightarrow> drw_world \<Rightarrow> drw_world option" where
  "remove_visit mat c st =
     (case remove_critical mat c st of
        None \<Rightarrow> None
      | Some (st1, dsh, wait) \<Rightarrow>
          (case compilers st1 c of
             None \<Rightarrow> None
           | Some cp \<Rightarrow>
               if wait \<and> compilation_lock cp \<noteq> None then None
               else Some (free_found dsh st1)))"

primrec DRW_deferred_shader_remove ::
  "nat \<Rightarrow> nat option list \<Rightarrow> drw_world \<Rightarrow> drw_world option" where
  "DRW_deferred_shader_remove mat [] st = Some st"
| "DRW_deferred_shader_remove mat (j # js) st =
     (case j of
        None \<Rightarrow> DRW_deferred_shader_remove mat js st
      | Some c \<Rightarrow>
          (case remove_visit mat c st of
             None \<Rightarrow> None
           | Some st1 \<Rightarrow> DRW_deferred_shader_remove mat js st1))"

text \<open>
  \<^verbatim>\<open>drw_deferred_shader_add\<close>. \<open>new_compiler\<close> is the zeroed compiler of line 232,
  \<open>migrate_old\<close> the lines 236 to 247 (\<open>None\<close>: the old compiler's list lock is
  taken), \<open>create_context\<close> the lines 252 to 266. The request, the compiler and a new
  context get the next free pointers. \<^verbatim>\<open>WM_jobs_customdata_set\<close> makes the new
  compiler the custom data of the job; its worker has not started.
\<close>

definition new_compiler :: DRWShaderCompiler where
  "new_compiler =
     \<lparr>queue = [], queue_conclude = [], list_lock = None, mat_compiling = None,
      compilation_lock = None, gl_context = None, gpu_context = None,
      own_context = False, shaders_done = 0\<rparr>"

definition migrate_old ::
  "bool \<Rightarrow> nat option \<Rightarrow> drw_world \<Rightarrow> (DRWShaderCompiler \<times> drw_world) option" where
  "migrate_old job_own_context old_comp st =
     (case old_comp of
        None \<Rightarrow> Some (new_compiler, st)
      | Some oc \<Rightarrow>
          (case compilers st oc of
             None \<Rightarrow> None
           | Some ocp \<Rightarrow>
               if list_lock ocp \<noteq> None then None
               else
                 let cp1 = new_compiler\<lparr>queue := queue new_compiler @ queue ocp\<rparr>;
                     ocp1 = ocp\<lparr>queue := []\<rparr>
                 in if gl_context ocp \<noteq> None then
                      Some (cp1\<lparr>gl_context := gl_context ocp,
                                gpu_context := gpu_context ocp,
                                own_context := job_own_context\<rparr>,
                            set_compiler oc (ocp1\<lparr>own_context := False\<rparr>) st)
                    else Some (cp1, set_compiler oc ocp1 st)))"

definition create_context ::
  "DST_env \<Rightarrow> bool \<Rightarrow> DRWShaderCompiler \<Rightarrow> drw_world \<Rightarrow> DRWShaderCompiler \<times> drw_world" where
  "create_context env job_own_context cp st =
     (if gl_context cp = None then
        (if use_main_context_workaround env then
           (cp\<lparr>gl_context := Some (DST_gl_context env),
               gpu_context := Some (DST_gpu_context env),
               own_context := job_own_context\<rparr>, st)
         else
           (cp\<lparr>gl_context := Some (next_ptr st),
               gpu_context := Some (Suc (next_ptr st)),
               own_context := job_own_context\<rparr>,
            st\<lparr>gl_contexts := gl_contexts st @ [next_ptr st],
               next_ptr := Suc (Suc (next_ptr st))\<rparr>))
      else (cp, st))"

definition drw_deferred_shader_add ::
  "DST_env \<Rightarrow> nat option list \<Rightarrow> nat \<Rightarrow> bool \<Rightarrow> drw_world \<Rightarrow> drw_world option" where
  "drw_deferred_shader_add env jobs mat deferred st =
     (if \<not> evil_C env \<or> is_image_render env \<or> \<not> USE_DEFERRED_COMPILATION \<or> \<not> deferred then
        (case DRW_deferred_shader_remove mat jobs st of
           None \<Rightarrow> None
         | Some st1 \<Rightarrow> Some (GPU_material_compile env mat st1))
      else
        let job_own_context = \<not> use_main_context_workaround env;
            dsh = next_ptr st;
            c = Suc dsh;
            st1 = st\<lparr>deferred_shaders := (deferred_shaders st)(dsh \<mapsto> mat),
                     next_ptr := Suc c\<rparr>
        in case migrate_old job_own_context (job_customdata st) st1 of
             None \<Rightarrow> None
           | Some (cp1, st2) \<Rightarrow>
               let cp2 = cp1\<lparr>queue := BLI_addtail (queue cp1) dsh\<rparr>;
                   (cp3, st3) = create_context env job_own_context cp2 st2
               in Some ((set_compiler c cp3 st3)
                          \<lparr>job_customdata := Some c,
                           worker := (worker st3)(c := W_NotStarted)\<rparr>))"

text \<open>
  \<^verbatim>\<open>DRW_shader_from_material\<close> and \<^verbatim>\<open>DRW_shader_from_world\<close>, from the material
  that \<^verbatim>\<open>GPU_material_from_nodetree\<close> (the code generator) hands back.
\<close>

definition set_status :: "nat \<Rightarrow> eGPUMaterialStatus \<Rightarrow> drw_world \<Rightarrow> drw_world" where
  "set_status mat s st = st\<lparr>mat_status := (mat_status st)(mat := s)\<rparr>"

definition DRW_shader_from_world ::
  "DST_env \<Rightarrow> nat option list \<Rightarrow> nat \<Rightarrow> bool \<Rightarrow> drw_world \<Rightarrow> drw_world option" where
  "DRW_shader_from_world env jobs mat deferred st =
     (if \<not> is_image_render env \<and> deferred \<and> mat_status st mat = GPU_MAT_QUEUED then Some st
      else
        case (if mat_status st mat = GPU_MAT_CREATED
              then drw_deferred_shader_add env jobs mat deferred (set_status mat GPU_MAT_QUEUED st)
              else Some st) of
          None \<Rightarrow> None
        | Some st1 \<Rightarrow>
            if \<not> deferred \<and> mat_status st1 mat = GPU_MAT_QUEUED
            then drw_deferred_shader_add env jobs mat False st1
            else Some st1)"

definition DRW_shader_from_material ::
  "DST_env \<Rightarrow> nat option list \<Rightarrow> nat \<Rightarrow> bool \<Rightarrow> drw_world \<Rightarrow> drw_world option" where
  "DRW_shader_from_material env jobs mat deferred0 st =
     (let deferred = (if is_image_render env then False else deferred0) in
      if deferred \<and> mat_status st mat = GPU_MAT_QUEUED then Some st
      else
        case (if mat_status st mat = GPU_MAT_CREATED
              then drw_deferred_shader_add env jobs mat deferred (set_status mat GPU_MAT_QUEUED st)
              else Some st) of
          None \<Rightarrow> None
        | Some st1 \<Rightarrow>
            if \<not> deferred \<and> mat_status st1 mat = GPU_MAT_QUEUED
            then drw_deferred_shader_add env jobs mat False st1
            else Some st1)"

text \<open>
  \<^verbatim>\<open>drw_deferred_shader_compilation_free\<close>: the queued requests are freed, the
  requests of the conclude list are compiled and freed from the tail
  (\<open>conclude_loop\<close>; \<open>None\<close>: a request of the list is not a live cell), the context
  is disposed only when the compiler owns it, and the compiler is freed.
\<close>

primrec conclude_loop :: "DST_env \<Rightarrow> nat list \<Rightarrow> drw_world \<Rightarrow> drw_world option" where
  "conclude_loop env [] st = Some st"
| "conclude_loop env (d # ds) st =
     (case deferred_shaders st d of
        None \<Rightarrow> None
      | Some mat \<Rightarrow>
          conclude_loop env ds (drw_deferred_shader_free d (GPU_material_compile env mat st)))"

definition dispose_context :: "DRWShaderCompiler \<Rightarrow> drw_world \<Rightarrow> drw_world" where
  "dispose_context cp st =
     (if own_context cp then
        (case gl_context cp of
           None \<Rightarrow> st
         | Some g \<Rightarrow> st\<lparr>gl_contexts := removeAll g (gl_contexts st)\<rparr>)
      else st)"

definition drw_deferred_shader_compilation_free ::
  "DST_env \<Rightarrow> nat \<Rightarrow> drw_world \<Rightarrow> drw_world option" where
  "drw_deferred_shader_compilation_free env c st =
     (case compilers st c of
        None \<Rightarrow> None
      | Some cp \<Rightarrow>
          (case conclude_loop env (rev (queue_conclude cp))
                  (fold drw_deferred_shader_free (queue cp) st) of
             None \<Rightarrow> None
           | Some st2 \<Rightarrow>
               Some ((dispose_context cp st2)
                       \<lparr>compilers := fun_upd (compilers st2) c None\<rparr>)))"

text \<open>
  One step of the worker of compiler \<open>c\<close> in
  \<^verbatim>\<open>drw_deferred_shader_compilation_exec\<close>; \<open>stop\<close> is the value of \<^verbatim>\<open>*stop\<close> that
  the step reads. A step that needs a lock is not enabled (\<open>None\<close>) while another
  thread holds it. The sections under the list lock are one step each; a thread
  keeps the list lock across steps only where it waits for the compilation lock.
\<close>

definition set_worker :: "nat \<Rightarrow> worker_pc \<Rightarrow> drw_world \<Rightarrow> drw_world" where
  "set_worker c pc st = st\<lparr>worker := (worker st)(c := pc)\<rparr>"

definition worker_step :: "DST_env \<Rightarrow> nat \<Rightarrow> bool \<Rightarrow> drw_world \<Rightarrow> drw_world option" where
  "worker_step env c stop st =
     (case compilers st c of
        None \<Rightarrow> None
      | Some cp \<Rightarrow>
          (case worker st c of
             W_NotStarted \<Rightarrow> Some (set_worker c W_Top st)
           | W_Top \<Rightarrow>
               if list_lock cp \<noteq> None then None
               else if stop then Some (set_worker c W_Exited st)
               else
                 (case BLI_poptail (queue cp) of
                    (None, q) \<Rightarrow>
                      Some (set_worker c W_Exited
                              (set_compiler c (cp\<lparr>mat_compiling := None, queue := q\<rparr>) st))
                  | (Some d, q) \<Rightarrow>
                      Some (set_worker c W_WantMutex
                              (set_compiler c
                                 (cp\<lparr>mat_compiling := Some d, queue := q,
                                     shaders_done := shaders_done cp + 1,
                                     list_lock := Some (WorkerThread c)\<rparr>) st)))
           | W_WantMutex \<Rightarrow>
               if compilation_lock cp \<noteq> None then None
               else Some (set_worker c W_Compiling
                            (set_compiler c
                               (cp\<lparr>compilation_lock := Some (WorkerThread c),
                                   list_lock := None\<rparr>) st))
           | W_Compiling \<Rightarrow>
               (case mat_compiling cp of
                  None \<Rightarrow> None
                | Some d \<Rightarrow>
                    (case deferred_shaders st d of
                       None \<Rightarrow> None
                     | Some mat \<Rightarrow>
                         Some (set_worker c W_Compiled (GPU_material_compile env mat st))))
           | W_Compiled \<Rightarrow>
               Some (set_worker c W_After
                       (set_compiler c (cp\<lparr>compilation_lock := None\<rparr>) st))
           | W_After \<Rightarrow>
               if list_lock cp \<noteq> None then None
               else
                 (case mat_compiling cp of
                    None \<Rightarrow> None
                  | Some d \<Rightarrow>
                      (case deferred_shaders st d of
                         None \<Rightarrow> None
                       | Some mat \<Rightarrow>
                           if mat_status st mat = GPU_MAT_QUEUED then
                             Some (set_worker c W_Top
                                     (set_compiler c
                                        (cp\<lparr>queue_conclude := BLI_addtail (queue_conclude cp) d,
                                            mat_compiling := None\<rparr>) st))
                           else
                             Some (set_worker c W_Top
                                     (set_compiler c (cp\<lparr>mat_compiling := None\<rparr>)
                                        (drw_deferred_shader_free d st)))))
           | W_Exited \<Rightarrow> None))"

text \<open>
  One step of the main thread inside \<^verbatim>\<open>DRW_deferred_shader_remove\<close>. The free of the
  unlinked request (line 310) touches memory no other thread can reach and is taken
  with the step that releases the list lock.
\<close>

definition remover_step :: "drw_world \<Rightarrow> drw_world option" where
  "remover_step st =
     (case remover st of
        R_Idle \<Rightarrow> None
      | R_Visit mat [] \<Rightarrow> Some (st\<lparr>remover := R_Idle\<rparr>)
      | R_Visit mat (None # js) \<Rightarrow> Some (st\<lparr>remover := R_Visit mat js\<rparr>)
      | R_Visit mat (Some c # js) \<Rightarrow>
          (case remove_critical mat c st of
             None \<Rightarrow> None
           | Some (st1, dsh, wait) \<Rightarrow>
               if wait then
                 (case compilers st1 c of
                    None \<Rightarrow> None
                  | Some cp \<Rightarrow>
                      Some ((set_compiler c (cp\<lparr>list_lock := Some MainThread\<rparr>) st1)
                              \<lparr>remover := R_Wait mat c dsh js\<rparr>))
               else Some ((free_found dsh st1)\<lparr>remover := R_Visit mat js\<rparr>))
      | R_Wait mat c dsh js \<Rightarrow>
          (case compilers st c of
             None \<Rightarrow> None
           | Some cp \<Rightarrow>
               if compilation_lock cp \<noteq> None then None
               else Some ((free_found dsh (set_compiler c (cp\<lparr>list_lock := None\<rparr>) st))
                            \<lparr>remover := R_Visit mat js\<rparr>)))"

text \<open>
  The interleavings. The main thread makes a deferred request for a material
  (\<open>Enqueue\<close>, the call of \<^verbatim>\<open>DRW_shader_from_material\<close> with \<open>deferred\<close> set), enters
  \<^verbatim>\<open>DRW_deferred_shader_remove\<close> (\<open>Remove\<close>, with the compilers the job system hands
  out) and goes through it (\<open>RemoveStep\<close>), or lets the job system free a compiler
  whose worker is not running (\<open>Teardown\<close>, which also drops the job's pointer to it);
  the worker of a compiler takes a step (\<open>Work\<close>).
\<close>

datatype action =
    Enqueue nat
  | Remove nat "nat option list"
  | RemoveStep
  | Work nat bool
  | Teardown nat

definition step :: "DST_env \<Rightarrow> action \<Rightarrow> drw_world \<Rightarrow> drw_world option" where
  "step env a st =
     (case a of
        Enqueue mat \<Rightarrow>
          if remover st = R_Idle then DRW_shader_from_material env [] mat True st else None
      | Remove mat jobs \<Rightarrow>
          if remover st = R_Idle then Some (st\<lparr>remover := R_Visit mat jobs\<rparr>) else None
      | RemoveStep \<Rightarrow> remover_step st
      | Work c stop \<Rightarrow> worker_step env c stop st
      | Teardown c \<Rightarrow>
          if remover st = R_Idle \<and> (worker st c = W_NotStarted \<or> worker st c = W_Exited) then
            (case drw_deferred_shader_compilation_free env c st of
               None \<Rightarrow> None
             | Some st1 \<Rightarrow>
                 Some (if job_customdata st1 = Some c then st1\<lparr>job_customdata := None\<rparr>
                       else st1))
          else None)"

primrec exec :: "DST_env \<Rightarrow> action list \<Rightarrow> drw_world \<Rightarrow> drw_world option" where
  "exec env [] st = Some st"
| "exec env (a # as) st =
     (case step env a st of None \<Rightarrow> None | Some st1 \<Rightarrow> exec env as st1)"

text \<open>
  The places a compiler keeps requests in: the queue, the conclude list and the
  "currently compiling" slot.
\<close>

definition reqs :: "DRWShaderCompiler \<Rightarrow> nat list" where
  "reqs cp =
     queue cp @ queue_conclude cp @ (case mat_compiling cp of None \<Rightarrow> [] | Some d \<Rightarrow> [d])"

text \<open>What a state shows of the contexts: for each compiler its context and its flag.\<close>

definition ctx_view :: "drw_world \<Rightarrow> nat \<Rightarrow> (nat option \<times> bool) option" where
  "ctx_view st c = map_option (\<lambda>cp. (gl_context cp, own_context cp)) (compilers st c)"

text \<open>
  At most one compiler owns a context, and it is the one the job points to; every
  compiler has a context, and its pointer is one that was given out.
\<close>

definition ctx_inv :: "drw_world \<Rightarrow> bool" where
  "ctx_inv st \<longleftrightarrow>
     (\<forall>c cp. compilers st c = Some cp \<longrightarrow>
        c < next_ptr st \<and> gl_context cp \<noteq> None
        \<and> (own_context cp \<longrightarrow> job_customdata st = Some c))"

text \<open>
  A call that went the synchronous way for a material: only the status of the
  material and the record of GPU calls changed.
\<close>

definition only_compiled :: "DST_env \<Rightarrow> nat \<Rightarrow> drw_world \<Rightarrow> drw_world \<Rightarrow> bool" where
  "only_compiled env mat st st' \<longleftrightarrow>
     deferred_shaders st' = deferred_shaders st \<and> compilers st' = compilers st
     \<and> gl_contexts st' = gl_contexts st \<and> job_customdata st' = job_customdata st
     \<and> next_ptr st' = next_ptr st \<and> worker st' = worker st \<and> remover st' = remover st
     \<and> mat_status st' = (mat_status st)(mat := compile_result env mat)"

text \<open>The places of the worker's loop at which the "currently compiling" slot is set.\<close>

definition holds_request :: "worker_pc \<Rightarrow> bool" where
  "holds_request pc \<longleftrightarrow>
     pc = W_WantMutex \<or> pc = W_Compiling \<or> pc = W_Compiled \<or> pc = W_After"

text \<open>
  What every reachable state keeps true of the requests. Within a compiler no request
  is in two places, and the queue is in the order of allocation; no request is in two
  compilers; a request that is in a place is a live cell; a live cell is in a place
  of some compiler, its material is not in status \<open>GPU_MAT_CREATED\<close>, and no other
  live cell is for the same material; the slot is set only while the worker is
  between the pop and the end of the loop body; and a main thread that waits inside
  \<^verbatim>\<open>DRW_deferred_shader_remove\<close> has unlinked nothing.
\<close>

definition req_inv :: "drw_world \<Rightarrow> bool" where
  "req_inv st \<longleftrightarrow>
     (\<forall>c cp. compilers st c = Some cp \<longrightarrow>
        c < next_ptr st \<and> distinct (reqs cp) \<and> sorted_wrt (<) (queue cp)
        \<and> (\<forall>d\<in>set (reqs cp). deferred_shaders st d \<noteq> None)
        \<and> (mat_compiling cp \<noteq> None \<longrightarrow> holds_request (worker st c)))
     \<and> (\<forall>c c' cp cp'. compilers st c = Some cp \<and> compilers st c' = Some cp' \<and> c \<noteq> c' \<longrightarrow>
          set (reqs cp) \<inter> set (reqs cp') = {})
     \<and> (\<forall>d m. deferred_shaders st d = Some m \<longrightarrow>
          d < next_ptr st \<and> mat_status st m \<noteq> GPU_MAT_CREATED
          \<and> (\<exists>c cp. compilers st c = Some cp \<and> d \<in> set (reqs cp)))
     \<and> (\<forall>d d' m. deferred_shaders st d = Some m \<and> deferred_shaders st d' = Some m \<longrightarrow> d = d')
     \<and> (\<forall>m c dsh js. remover st = R_Wait m c dsh js \<longrightarrow> dsh = None)"

text \<open>
  The queue of every compiler holds pointers that were given out, in increasing order:
  a request gets its pointer when it is enqueued, so this is the order of enqueueing.
\<close>

definition queue_inv :: "drw_world \<Rightarrow> bool" where
  "queue_inv st \<longleftrightarrow>
     (\<forall>c cp. compilers st c = Some cp \<longrightarrow>
        sorted_wrt (<) (queue cp) \<and> (\<forall>d\<in>set (queue cp). d < next_ptr st))"

text \<open>In how many places of a compiler a request is.\<close>

definition places :: "DRWShaderCompiler \<Rightarrow> nat \<Rightarrow> nat" where
  "places cp d =
     count_list (queue cp) d + count_list (queue_conclude cp) d
     + (if mat_compiling cp = Some d then 1 else 0)"

text \<open>
  The locks and the places of the threads: a worker inside the call of the GPU holds
  the compilation lock, a worker that wants it holds the list lock, and so does a main
  thread that waits inside \<^verbatim>\<open>DRW_deferred_shader_remove\<close>.
\<close>

definition lock_inv :: "drw_world \<Rightarrow> bool" where
  "lock_inv st \<longleftrightarrow>
     (\<forall>c cp. compilers st c = Some cp \<longrightarrow>
        (worker st c = W_Compiling \<longrightarrow> compilation_lock cp \<noteq> None)
        \<and> (worker st c = W_WantMutex \<longrightarrow> list_lock cp = Some (WorkerThread c))
        \<and> (\<forall>m dsh js. remover st = R_Wait m c dsh js \<longrightarrow> list_lock cp = Some MainThread))"

text \<open>
  The worker of compiler \<open>c\<close> is inside a compile of material \<open>mat\<close>: it has popped a
  request of the material and the call of the GPU has not returned.
\<close>

definition compile_running :: "drw_world \<Rightarrow> nat \<Rightarrow> nat \<Rightarrow> bool" where
  "compile_running st c mat \<longleftrightarrow>
     (case compilers st c of
        None \<Rightarrow> False
      | Some cp \<Rightarrow>
          (worker st c = W_WantMutex \<or> worker st c = W_Compiling)
          \<and> (case mat_compiling cp of
                None \<Rightarrow> False
              | Some d \<Rightarrow> deferred_shaders st d = Some mat))"

section \<open>Example inputs\<close>

text \<open>Two fragments, the name of the first a prefix of the name of the second.\<close>

definition prefix_lib :: DRWShaderLibrary where
  "prefix_lib =
     \<lparr>libs = (replicate MAX_LIB None)[0 := Some ''float c;'', 1 := Some ''float m;''],
      libs_name = (replicate MAX_LIB [])[0 := ''common'', 1 := ''common_math''],
      libs_deps = replicate MAX_LIB 0\<rparr>"

text \<open>A registry with all \<open>MAX_LIB\<close> slots taken.\<close>

definition full_lib :: DRWShaderLibrary where
  "full_lib =
     \<lparr>libs = replicate MAX_LIB (Some ''float f;''),
      libs_name = replicate MAX_LIB ''f'',
      libs_deps = replicate MAX_LIB 0\<rparr>"

text \<open>
  Three fragments \<open>A\<close>, \<open>B\<close> (requires \<open>A\<close>) and \<open>C\<close> (requires \<open>B\<close>), as
  registration in this order leaves them.
\<close>

definition chain_lib :: DRWShaderLibrary where
  "chain_lib =
     \<lparr>libs = (replicate MAX_LIB None)
               [0 := Some ''float a;'',
                1 := Some ''BLENDER_REQUIRE(A)float b;'',
                2 := Some ''BLENDER_REQUIRE(B)float c;''],
      libs_name = (replicate MAX_LIB [])[0 := ''A'', 1 := ''B'', 2 := ''C''],
      libs_deps = (replicate MAX_LIB 0)[0 := 0, 1 := 1, 2 := 2]\<rparr>"

text \<open>
  The scenario of the specification: \<open>A\<close> without dependencies, then \<open>B\<close> requiring
  \<open>A\<close>; \<open>ab_lib\<close> is the library the two registrations leave.
\<close>

definition ab_regs :: "(string \<times> string) list" where
  "ab_regs = [(''float a;'', ''A''), (''BLENDER_REQUIRE(A)float b;'', ''B'')]"

definition ab_lib :: DRWShaderLibrary where
  "ab_lib =
     \<lparr>libs = (replicate MAX_LIB None)
               [0 := Some ''float a;'', 1 := Some ''BLENDER_REQUIRE(A)float b;''],
      libs_name = (replicate MAX_LIB [])[0 := ''A'', 1 := ''B''],
      libs_deps = (replicate MAX_LIB 0)[0 := 0, 1 := 1]\<rparr>"

text \<open>
  A forward reference: \<open>B\<close> requires \<open>A\<close> and is registered first; \<open>fwd_lib\<close> is
  the library the two registrations leave.
\<close>

definition fwd_regs :: "(string \<times> string) list" where
  "fwd_regs = [(''BLENDER_REQUIRE(A)float b;'', ''B''), (''float a;'', ''A'')]"

definition fwd_lib :: DRWShaderLibrary where
  "fwd_lib =
     \<lparr>libs = (replicate MAX_LIB None)
               [0 := Some ''BLENDER_REQUIRE(A)float b;'', 1 := Some ''float a;''],
      libs_name = (replicate MAX_LIB [])[0 := ''B'', 1 := ''A''],
      libs_deps = replicate MAX_LIB 0\<rparr>"

text \<open>
  A directive naming \<open>common_math\<close>, which is not registered, while \<open>common\<close>
  is; \<open>silent_lib\<close> is the library the two registrations leave. And the two
  fragments \<open>common\<close> and \<open>common_math\<close> registered in this order.
\<close>

definition silent_regs :: "(string \<times> string) list" where
  "silent_regs = [(''float c;'', ''common''), (''BLENDER_REQUIRE(common_math)float b;'', ''B'')]"

definition silent_lib :: DRWShaderLibrary where
  "silent_lib =
     \<lparr>libs = (replicate MAX_LIB None)
               [0 := Some ''float c;'', 1 := Some ''BLENDER_REQUIRE(common_math)float b;''],
      libs_name = (replicate MAX_LIB [])[0 := ''common'', 1 := ''B''],
      libs_deps = (replicate MAX_LIB 0)[0 := 0, 1 := 1]\<rparr>"

definition prefix_regs :: "(string \<times> string) list" where
  "prefix_regs = [(''float c;'', ''common''), (''float m;'', ''common_math'')]"

text \<open>
  The state before any request, an interactive environment and the same environment
  during an image render.
\<close>

definition init_world :: drw_world where
  "init_world =
     \<lparr>deferred_shaders = Map.empty, compilers = Map.empty,
      mat_status = (\<lambda>m. GPU_MAT_CREATED), gpu_calls = [], gl_contexts = [],
      job_customdata = None, next_ptr = 10,
      worker = (\<lambda>c. W_NotStarted), remover = R_Idle\<rparr>"

definition interactive_env :: DST_env where
  "interactive_env =
     \<lparr>evil_C = True, is_image_render = False, use_main_context_workaround = False,
      DST_gl_context = 1, DST_gpu_context = 2,
      compile_result = (\<lambda>m. GPU_MAT_SUCCESS)\<rparr>"

definition render_env :: DST_env where
  "render_env = interactive_env\<lparr>is_image_render := True\<rparr>"

section \<open>Name lookup\<close>

lemma strncmp_eq_prefix: "strncmp_eq a b (length a) \<longleftrightarrow> prefix a b"
proof
  assume "strncmp_eq a b (length a)"
  then have "a = take (length a) b" by (simp add: strncmp_eq_def)
  then show "prefix a b" by (metis take_is_prefix)
next
  assume "prefix a b"
  then obtain zs where "b = a @ zs" by (auto simp: prefix_def)
  then show "strncmp_eq a b (length a)" by (simp add: strncmp_eq_def)
qed

lemma search_loop_upt:
  "search_loop lib name [k..<n] = Some i \<longleftrightarrow>
     k \<le> i \<and> i < n \<and> (\<forall>j. k \<le> j \<and> j \<le> i \<longrightarrow> libs lib ! j \<noteq> None)
       \<and> prefix (libs_name lib ! i) name
       \<and> (\<forall>j. k \<le> j \<and> j < i \<longrightarrow> \<not> prefix (libs_name lib ! j) name)"
proof (induction "n - k" arbitrary: k)
  case 0
  then show ?case by auto
next
  case (Suc d)
  then have kn: "k < n" and d: "d = n - Suc k" by auto
  have unf: "[k..<n] = k # [Suc k..<n]" using kn by (simp add: upt_conv_Cons)
  note IH = Suc.hyps(1)[OF d]
  show ?case
  proof (cases "libs lib ! k = None")
    case True
    then show ?thesis unfolding unf by auto
  next
    case occ: False
    show ?thesis
    proof (cases "prefix (libs_name lib ! k) name")
      case True
      have s: "search_loop lib name [k..<n] = Some k"
        unfolding unf using occ True by (simp add: strncmp_eq_prefix)
      show ?thesis
      proof
        assume "search_loop lib name [k..<n] = Some i"
        then have "i = k" using s by simp
        then show "k \<le> i \<and> i < n \<and> (\<forall>j. k \<le> j \<and> j \<le> i \<longrightarrow> libs lib ! j \<noteq> None)
          \<and> prefix (libs_name lib ! i) name
          \<and> (\<forall>j. k \<le> j \<and> j < i \<longrightarrow> \<not> prefix (libs_name lib ! j) name)"
          using occ True kn by auto
      next
        assume r: "k \<le> i \<and> i < n \<and> (\<forall>j. k \<le> j \<and> j \<le> i \<longrightarrow> libs lib ! j \<noteq> None)
          \<and> prefix (libs_name lib ! i) name
          \<and> (\<forall>j. k \<le> j \<and> j < i \<longrightarrow> \<not> prefix (libs_name lib ! j) name)"
        have "\<not> k < i" using r True by blast
        then have "i = k" using r by simp
        then show "search_loop lib name [k..<n] = Some i" using s by simp
      qed
    next
      case False
      have e: "search_loop lib name [k..<n] = search_loop lib name [Suc k..<n]"
        unfolding unf using occ False by (simp add: strncmp_eq_prefix)
      have a: "(\<forall>j. k \<le> j \<and> j \<le> i \<longrightarrow> libs lib ! j \<noteq> None)
          \<longleftrightarrow> (\<forall>j. Suc k \<le> j \<and> j \<le> i \<longrightarrow> libs lib ! j \<noteq> None)"
        using occ by (metis Suc_leI le_neq_implies_less Suc_leD)
      have b: "(\<forall>j. k \<le> j \<and> j < i \<longrightarrow> \<not> prefix (libs_name lib ! j) name)
          \<longleftrightarrow> (\<forall>j. Suc k \<le> j \<and> j < i \<longrightarrow> \<not> prefix (libs_name lib ! j) name)"
        using False by (metis Suc_leI le_neq_implies_less Suc_leD)
      have c: "prefix (libs_name lib ! i) name \<Longrightarrow> k \<le> i \<longleftrightarrow> Suc k \<le> i"
        using False by (metis Suc_leI le_neq_implies_less Suc_leD)
      show ?thesis
        unfolding e IH a b using c by blast
    qed
  qed
qed


lemma search_Some_iff:
  "drw_shader_library_search lib name = Some i \<longleftrightarrow>
     i < MAX_LIB \<and> (\<forall>j\<le>i. libs lib ! j \<noteq> None)
       \<and> prefix (libs_name lib ! i) name
       \<and> (\<forall>j<i. \<not> prefix (libs_name lib ! j) name)"
  unfolding drw_shader_library_search_def search_loop_upt by simp

lemma strstr_at_directive:
  "pragma_str \<noteq> [] \<Longrightarrow> strstr (pragma_str @ rest) pragma_str = Some (pragma_str @ rest)"
  by (cases pragma_str) simp_all

lemma deps_loop_resolved:
  assumes "pragma_str \<noteq> []" and "drw_shader_library_search lib rest = Some dep"
  shows "deps_loop max_name lib pragma_str (pragma_str @ rest) deps lg =
           deps_loop max_name lib pragma_str rest (deps OR push_bit dep 1) lg"
  by (subst deps_loop.simps) (simp add: strstr_at_directive assms)

text \<open>
  C10. Lookup is by prefix: the text after a directive resolves to slot \<open>i\<close> exactly
  when \<open>i\<close> and every slot below it are occupied (the scan breaks at the first empty
  slot), the whole stored name of \<open>i\<close> is a prefix of the text, and no lower slot has
  such a name. Hence when the stored name of slot \<open>i\<close> is a prefix of the stored name of
  a later slot \<open>j\<close>, a text naming \<open>j\<close> never resolves to \<open>j\<close> but to a slot no later
  than \<open>i\<close>; and a directive whose text resolves to \<open>dep\<close> sets bit \<open>dep\<close> and the scan
  goes on behind the directive.
\<close>

theorem search_is_prefix_based:
  "(drw_shader_library_search lib name = Some i \<longleftrightarrow>
      i < MAX_LIB \<and> (\<forall>j\<le>i. libs lib ! j \<noteq> None)
        \<and> prefix (libs_name lib ! i) name
        \<and> (\<forall>j<i. \<not> prefix (libs_name lib ! j) name))
   \<and> (i < j \<and> j < MAX_LIB \<and> (\<forall>k\<le>j. libs lib ! k \<noteq> None)
        \<and> prefix (libs_name lib ! i) (libs_name lib ! j)
        \<and> prefix (libs_name lib ! j) name
      \<longrightarrow> (\<exists>k\<le>i. drw_shader_library_search lib name = Some k)
          \<and> drw_shader_library_search lib name \<noteq> Some j)
   \<and> (pragma_str \<noteq> [] \<and> drw_shader_library_search lib name = Some i
      \<longrightarrow> deps_loop max_name lib pragma_str (pragma_str @ name) deps lg =
            deps_loop max_name lib pragma_str name (deps OR push_bit i 1) lg)"
proof (intro conjI impI)
  show "drw_shader_library_search lib name = Some i \<longleftrightarrow>
      i < MAX_LIB \<and> (\<forall>j\<le>i. libs lib ! j \<noteq> None)
        \<and> prefix (libs_name lib ! i) name
        \<and> (\<forall>j<i. \<not> prefix (libs_name lib ! j) name)"
    by (rule search_Some_iff)
next
  assume h: "i < j \<and> j < MAX_LIB \<and> (\<forall>k\<le>j. libs lib ! k \<noteq> None)
        \<and> prefix (libs_name lib ! i) (libs_name lib ! j)
        \<and> prefix (libs_name lib ! j) name"
  then have pi: "prefix (libs_name lib ! i) name"
    using prefix_order.order_trans by blast
  define k where "k = (LEAST k. prefix (libs_name lib ! k) name)"
  have pk: "prefix (libs_name lib ! k) name" and ki: "k \<le> i"
    and least: "\<forall>m<k. \<not> prefix (libs_name lib ! m) name"
    unfolding k_def using pi by (auto intro: LeastI Least_le dest: not_less_Least)
  have "drw_shader_library_search lib name = Some k"
    unfolding search_Some_iff using h pk ki least by auto
  then show "\<exists>k\<le>i. drw_shader_library_search lib name = Some k"
    and "drw_shader_library_search lib name \<noteq> Some j"
    using ki h by auto
next
  assume "pragma_str \<noteq> [] \<and> drw_shader_library_search lib name = Some i"
  then show "deps_loop max_name lib pragma_str (pragma_str @ name) deps lg =
            deps_loop max_name lib pragma_str name (deps OR push_bit i 1) lg"
    by (simp add: deps_loop_resolved)
qed

theorem search_is_prefix_based_witness:
  "(0::nat) < 1 \<and> 1 < MAX_LIB \<and> libs prefix_lib ! 0 \<noteq> None \<and> libs prefix_lib ! 1 \<noteq> None
     \<and> prefix (libs_name prefix_lib ! 0) (libs_name prefix_lib ! 1)
     \<and> prefix (libs_name prefix_lib ! 1) ''common_math)''
     \<and> drw_shader_library_search prefix_lib ''common_math)'' = Some 0
     \<and> ''BLENDER_REQUIRE('' \<noteq> []
     \<and> deps_loop 64 prefix_lib ''BLENDER_REQUIRE('' (''BLENDER_REQUIRE('' @ ''common_math)'') 0 [] =
         deps_loop 64 prefix_lib ''BLENDER_REQUIRE('' ''common_math)'' (0 OR push_bit 0 1) []"
proof -
  have h: "(0::nat) < 1 \<and> 1 < MAX_LIB \<and> libs prefix_lib ! 0 \<noteq> None \<and> libs prefix_lib ! 1 \<noteq> None
     \<and> prefix (libs_name prefix_lib ! 0) (libs_name prefix_lib ! 1)
     \<and> prefix (libs_name prefix_lib ! 1) ''common_math)''"
    by (simp add: prefix_lib_def MAX_LIB_def)
  have a: "\<forall>k\<le>1. libs prefix_lib ! k \<noteq> None"
    using h by (simp add: le_Suc_eq)
  have s: "drw_shader_library_search prefix_lib ''common_math)'' = Some 0"
    using search_is_prefix_based [of prefix_lib "''common_math)''" 0 1 "''BLENDER_REQUIRE(''" 64 0 "[]"] h a
    by auto
  show ?thesis
    using search_is_prefix_based [of prefix_lib "''common_math)''" 0 1 "''BLENDER_REQUIRE(''" 64 0 "[]"] h s
    by simp
qed


section \<open>A full registry\<close>

lemma free_slot_loop_None:
  "free_slot_loop lib is = None \<longleftrightarrow> (\<forall>i\<in>set is. libs lib ! i \<noteq> None)"
  by (induction "is") auto

lemma add_file_full:
  assumes "registry_full lib"
  shows "DRW_shader_library_add_file assert_abort max_name lib lib_code lib_name =
           (if assert_abort then Some (Inl AssertFailed)
            else Some (Inr (lib, [TooManyLibraries lib_name])))"
proof -
  have "free_slot_loop lib [0..<MAX_LIB] = None"
    using assms by (simp add: free_slot_loop_None registry_full_def list_all_iff)
  then show ?thesis
    by (simp add: DRW_shader_library_add_file_def)
qed

lemma full_lib_full: "registry_full full_lib"
  by (simp add: registry_full_def full_lib_def list_all_iff)


text \<open>
  C8 (as amended). When no slot is free, \<open>register\<close> prints the error and runs
  \<^verbatim>\<open>BLI_assert(0)\<close>: in a build whose failed assertions abort the call does not
  return; in every other build it returns with the message logged and the registry
  unchanged.
\<close>

theorem add_file_when_full:
  assumes "registry_full lib"
  shows "DRW_shader_library_add_file assert_abort max_name lib lib_code lib_name =
           (if assert_abort then Some (Inl AssertFailed)
            else Some (Inr (lib, [TooManyLibraries lib_name])))"
  using assms by (rule add_file_full)

theorem add_file_when_full_witness:
  "registry_full full_lib \<and>
   DRW_shader_library_add_file False 64 full_lib ''float g;'' ''g'' =
     Some (Inr (full_lib, [TooManyLibraries ''g'']))"
  using add_file_when_full [OF full_lib_full, of False 64 "''float g;''" "''g''"] full_lib_full
  by simp

text \<open>
  The claim as stated ("does not abort") fails where assertions abort: the call on a
  full registry ends in the failed assertion.
\<close>

theorem add_file_full_aborts_counterexample:
  "DRW_shader_library_add_file True 64 full_lib ''float g;'' ''g'' = Some (Inl AssertFailed)"
  using add_file_full [OF full_lib_full, of True 64 "''float g;''" "''g''"] by simp

section \<open>The backward pass\<close>

lemma take_bit_eq_iff_bits:
  fixes w :: "64 word"
  shows "take_bit n w = w \<longleftrightarrow> (\<forall>j. bit w j \<longrightarrow> j < n)"
proof
  assume e: "take_bit n w = w"
  show "\<forall>j. bit w j \<longrightarrow> j < n"
  proof (intro allI impI)
    fix j assume "bit w j"
    then have "bit (take_bit n w) j" using e by simp
    then show "j < n" by (simp add: bit_take_bit_iff)
  qed
next
  assume "\<forall>j. bit w j \<longrightarrow> j < n"
  then show "take_bit n w = w"
    by (intro bit_word_eqI) (auto simp: bit_take_bit_iff)
qed

lemma test_bit: "(deps AND push_bit i 1) \<noteq> 0 \<longleftrightarrow> bit deps i" for deps :: "64 word"
  by (simp only: bit_iff_and_push_bit_not_eq_0)

lemma close_deps_step_eq:
  "close_deps_step lib i d =
     (if libs lib ! i \<noteq> None \<and> bit d i then d OR libs_deps lib ! i else d)"
  by (simp only: close_deps_step_def test_bit)

lemma close_step_bits:
  "bit (close_deps_step lib i d) j \<longleftrightarrow>
     bit d j \<or> (libs lib ! i \<noteq> None \<and> bit d i \<and> bit (libs_deps lib ! i) j)"
  by (auto simp: close_deps_step_eq bit_or_iff)

lemma pass_inv_step:
  assumes na: "\<forall>i<MAX_LIB. libs lib ! i \<noteq> None \<longrightarrow> (\<forall>j. bit (libs_deps lib ! i) j \<longrightarrow> j \<le> i)"
    and inv: "pass_inv lib D (Suc k) d" and k: "k < MAX_LIB"
  shows "pass_inv lib D k (close_deps_step lib k d)"
  unfolding pass_inv_def
proof (intro conjI allI impI)
  fix j assume "bit D j"
  then show "bit (close_deps_step lib k d) j"
    using inv by (simp add: close_step_bits pass_inv_def)
next
  fix j assume "bit (close_deps_step lib k d) j"
  then show "j \<in> required_closure lib D"
    using inv k unfolding close_step_bits pass_inv_def
    by (auto intro: required_closure.via)
next
  fix i j
  assume h: "k \<le> i \<and> i < MAX_LIB \<and> libs lib ! i \<noteq> None \<and> bit (close_deps_step lib k d) i
    \<and> bit (libs_deps lib ! i) j"
  show "bit (close_deps_step lib k d) j"
  proof (cases "i = k")
    case True
    have "bit d k"
    proof (rule ccontr)
      assume "\<not> bit d k"
      then have "close_deps_step lib k d = d" by (simp add: close_deps_step_eq)
      with h True \<open>\<not> bit d k\<close> show False by simp
    qed
    then show ?thesis using h True by (simp add: close_step_bits)
  next
    case False
    then have ki: "Suc k \<le> i" using h by simp
    have "bit d i"
    proof (rule ccontr)
      assume nb: "\<not> bit d i"
      then have "libs lib ! k \<noteq> None \<and> bit (libs_deps lib ! k) i"
        using h by (simp add: close_step_bits)
      then have "i \<le> k" using na k by blast
      then show False using ki by simp
    qed
    then have "bit d j" using inv ki h unfolding pass_inv_def by blast
    then show ?thesis by (simp add: close_step_bits)
  qed
qed

lemma pass_inv_fold:
  assumes na: "\<forall>i<MAX_LIB. libs lib ! i \<noteq> None \<longrightarrow> (\<forall>j. bit (libs_deps lib ! i) j \<longrightarrow> j \<le> i)"
  shows "k \<le> MAX_LIB \<Longrightarrow> pass_inv lib D k d \<Longrightarrow>
           pass_inv lib D 0 (fold (close_deps_step lib) (rev [0..<k]) d)"
proof (induction k arbitrary: d)
  case 0
  then show ?case by simp
next
  case (Suc k)
  have "pass_inv lib D k (close_deps_step lib k d)"
    using pass_inv_step [OF na Suc.prems(2)] Suc.prems(1) by simp
  then show ?case using Suc.IH Suc.prems(1) by simp
qed

lemma pass_inv_init: "pass_inv lib D MAX_LIB D"
  unfolding pass_inv_def by (auto intro: required_closure.direct)

lemma closure_subset:
  assumes "pass_inv lib D 0 d" and "j \<in> required_closure lib D"
  shows "bit d j"
  using assms(2)
proof (induction rule: required_closure.induct)
  case (direct j)
  then show ?case using assms(1) by (simp add: pass_inv_def)
next
  case (via i j)
  then show ?case using assms(1) unfolding pass_inv_def by blast
qed

lemma close_deps_closure:
  assumes "\<forall>i<MAX_LIB. libs lib ! i \<noteq> None \<longrightarrow> (\<forall>j. bit (libs_deps lib ! i) j \<longrightarrow> j \<le> i)"
  shows "{j. bit (close_deps lib D) j} = required_closure lib D"
proof -
  have "pass_inv lib D 0 (fold (close_deps_step lib) (rev [0..<MAX_LIB]) D)"
    by (rule pass_inv_fold [OF assms order_refl pass_inv_init])
  then have inv: "pass_inv lib D 0 (close_deps lib D)"
    by (simp only: close_deps_def)
  show ?thesis
  proof (rule set_eqI)
    fix j
    have "bit (close_deps lib D) j \<Longrightarrow> j \<in> required_closure lib D"
      using inv unfolding pass_inv_def by blast
    moreover have "j \<in> required_closure lib D \<Longrightarrow> bit (close_deps lib D) j"
      by (rule closure_subset [OF inv])
    ultimately show "j \<in> {j. bit (close_deps lib D) j} \<longleftrightarrow> j \<in> required_closure lib D"
      by blast
  qed
qed


lemma deps_strictly_below_bits:
  assumes "deps_strictly_below lib" and "i < MAX_LIB" and "libs lib ! i \<noteq> None"
    and "bit (libs_deps lib ! i) j"
  shows "j < i"
proof -
  have "take_bit i (libs_deps lib ! i) = libs_deps lib ! i"
    using assms(1-3) by (simp add: deps_strictly_below_def list_all_iff)
  then show ?thesis
    using assms(4) take_bit_eq_iff_bits by blast
qed

lemma deps_not_above_bits:
  assumes "deps_not_above lib" and "i < MAX_LIB" and "libs lib ! i \<noteq> None"
    and "bit (libs_deps lib ! i) j"
  shows "j \<le> i"
proof -
  have "take_bit (Suc i) (libs_deps lib ! i) = libs_deps lib ! i"
    using assms(1-3) by (simp add: deps_not_above_def list_all_iff)
  then have "j < Suc i"
    using assms(4) take_bit_eq_iff_bits by blast
  then show ?thesis by simp
qed

text \<open>
  C3. When every registered fragment's stored dependencies are strictly lower slots,
  the bits of the bitmap after the single backward pass are exactly the reference
  closure of the direct dependencies.
\<close>

theorem backward_pass_is_closure:
  assumes "deps_strictly_below lib"
  shows "{j. bit (close_deps lib deps) j} = required_closure lib deps"
proof (rule close_deps_closure, intro allI impI)
  fix i j
  assume "i < MAX_LIB" and "libs lib ! i \<noteq> None" and "bit (libs_deps lib ! i) j"
  then have "j < i" using assms deps_strictly_below_bits by blast
  then show "j \<le> i" by simp
qed

lemma chain_lib_below: "deps_strictly_below chain_lib"
  by (simp add: deps_strictly_below_def chain_lib_def list_all_iff nth_list_update MAX_LIB_def)

lemma chain_close: "close_deps chain_lib 4 = 7"
  by code_simp

theorem backward_pass_is_closure_witness:
  "deps_strictly_below chain_lib
   \<and> {j. bit (close_deps chain_lib 4) j} = required_closure chain_lib 4
   \<and> close_deps chain_lib 4 = 7"
  using backward_pass_is_closure [OF chain_lib_below, of 4] chain_lib_below chain_close
  by simp

section \<open>The scan for directives\<close>

lemma strstr_Some:
  "strstr h p = Some f \<Longrightarrow> prefix p f \<and> (\<exists>n. f = drop n h)"
proof (induction h)
  case Nil
  then show ?case by (auto split: if_splits)
next
  case (Cons c cs)
  show ?case
  proof (cases "prefix p (c # cs)")
    case True
    then have "f = c # cs" using Cons.prems by simp
    then show ?thesis using True by (metis drop0)
  next
    case False
    then have "strstr cs p = Some f" using Cons.prems by simp
    then obtain n where "prefix p f" and "f = drop n cs" using Cons.IH by blast
    then show ?thesis by (metis drop_Suc_Cons)
  qed
qed

lemma dbg_name_scan_suffix:
  "dbg_name_scan cap i h = Inr (nm, rest) \<Longrightarrow> \<exists>n. rest = drop n h"
proof (induction h arbitrary: i nm)
  case Nil
  then show ?case by (auto split: if_splits)
next
  case (Cons c cs)
  show ?case
  proof (cases "c \<noteq> CHR '')'' \<and> i < dbg_limit cap")
    case True
    then obtain nm' where "dbg_name_scan cap (Suc i) cs = Inr (nm', rest)"
      using Cons.prems by (auto split: if_splits sum.splits)
    then obtain n where "rest = drop n cs" using Cons.IH by blast
    then show ?thesis by (metis drop_Suc_Cons)
  next
    case False
    then have "rest = c # cs" using Cons.prems by (auto split: if_splits)
    then show ?thesis by (metis drop0)
  qed
qed

lemma directives_closed_drop:
  "directives_closed p h \<Longrightarrow> directives_closed p (drop n h)"
proof (induction h arbitrary: n)
  case Nil
  then show ?case by simp
next
  case (Cons c cs)
  then show ?case by (cases n) simp_all
qed

lemma directives_closed_prefix:
  "directives_closed p h \<Longrightarrow> prefix p h \<Longrightarrow> p \<noteq> [] \<Longrightarrow>
     CHR '')'' \<in> set (drop (length p) h)"
  by (cases h) auto

lemma dbg_limit_ok: "name_buffer_ok cap \<Longrightarrow> dbg_limit cap = cap - 2"
  unfolding name_buffer_ok_def dbg_limit_def
  by (simp add: nat_diff_distrib')

lemma dbg_name_scan_total:
  assumes "name_buffer_ok cap"
  shows "CHR '')'' \<in> set h \<Longrightarrow> i \<le> cap - 2 \<Longrightarrow>
           \<exists>nm rest. dbg_name_scan cap i h = Inr (nm, rest)"
proof (induction h arbitrary: i)
  case Nil
  then show ?case by simp
next
  case (Cons c cs)
  have lim: "dbg_limit cap = cap - 2" using assms by (rule dbg_limit_ok)
  have cap2: "2 \<le> cap" using assms by (simp add: name_buffer_ok_def)
  have icap: "i < cap" using Cons.prems(2) cap2 by simp
  show ?case
  proof (cases "c \<noteq> CHR '')'' \<and> i < dbg_limit cap")
    case True
    then have "CHR '')'' \<in> set cs" and "Suc i \<le> cap - 2"
      using Cons.prems lim by auto
    then obtain nm rest where "dbg_name_scan cap (Suc i) cs = Inr (nm, rest)"
      using Cons.IH by blast
    then show ?thesis using True icap by simp
  next
    case False
    then show ?thesis using icap by auto
  qed
qed


lemma scan_shorter_found:
  assumes "p \<noteq> []" and "strstr h p = Some f"
  shows "length (drop (length p) f) < length h"
proof -
  obtain n where pf: "prefix p f" and f: "f = drop n h" using strstr_Some [OF assms(2)] by blast
  have "length p \<le> length f" using pf by (rule prefix_length_le)
  moreover have "0 < length p" using assms(1) by simp
  moreover have "length f \<le> length h" using f by simp
  ultimately have "length f - length p < length h" by linarith
  then show ?thesis by simp
qed

lemma scan_shorter_missing:
  assumes "p \<noteq> []" and "strstr h p = Some f"
    and "dbg_name_scan cap i (drop (length p) f) = Inr (nm, rest)"
  shows "length rest < length h"
proof -
  obtain n where "rest = drop n (drop (length p) f)"
    using dbg_name_scan_suffix [OF assms(3)] by blast
  then have "length rest \<le> length (drop (length p) f)" by simp
  then show ?thesis using scan_shorter_found [OF assms(1,2)] by simp
qed

lemma deps_loop_bits:
  assumes p: "p \<noteq> []"
  shows "deps_loop cap lib p h d lg = Some (Inr (d', lg')) \<Longrightarrow> bit d' j \<Longrightarrow>
           bit d j \<or> (\<exists>t. drw_shader_library_search lib t = Some j)"
proof (induction "length h" arbitrary: h d lg rule: less_induct)
  case less
  show ?case
  proof (cases "strstr h p")
    case None
    then have "d' = d" using less.prems(1) by (subst (asm) deps_loop.simps) simp
    then show ?thesis using less.prems(2) by simp
  next
    case (Some f)
    let ?h1 = "drop (length p) f"
    show ?thesis
    proof (cases "drw_shader_library_search lib ?h1")
      case None
      show ?thesis
      proof (cases "dbg_name_scan cap 0 ?h1")
        case (Inl e)
        then have False using less.prems(1) Some None
          by (subst (asm) deps_loop.simps) simp
        then show ?thesis ..
      next
        case (Inr r)
        obtain nm rest where r: "r = (nm, rest)" by (cases r)
        have rec: "deps_loop cap lib p rest d (lg @ [DependencyNotFound nm]) = Some (Inr (d', lg'))"
          using less.prems(1) Some None Inr r by (subst (asm) deps_loop.simps) simp
        have "length rest < length h"
          using scan_shorter_missing [OF p Some] Inr r by blast
        then show ?thesis using less.hyps rec less.prems(2) by blast
      qed
    next
      case (Some dep)
      have rec: "deps_loop cap lib p ?h1 (d OR push_bit dep 1) lg = Some (Inr (d', lg'))"
        using less.prems(1) \<open>strstr h p = Some f\<close> Some by (subst (asm) deps_loop.simps) simp
      have "length ?h1 < length h"
        using scan_shorter_found [OF p \<open>strstr h p = Some f\<close>] .
      then have "bit (d OR push_bit dep 1) j \<or> (\<exists>t. drw_shader_library_search lib t = Some j)"
        using less.hyps rec less.prems(2) by blast
      moreover have "bit (push_bit dep (1::64 word)) j \<Longrightarrow> j = dep"
        by (simp only: bit_push_bit_iff bit_1_iff) auto
      ultimately show ?thesis using Some by (auto simp: bit_or_iff)
    qed
  qed
qed

lemma deps_loop_total:
  assumes p: "p \<noteq> []" and cap: "name_buffer_ok cap"
  shows "directives_closed p h \<Longrightarrow> \<exists>d' lg'. deps_loop cap lib p h d lg = Some (Inr (d', lg'))"
proof (induction "length h" arbitrary: h d lg rule: less_induct)
  case less
  show ?case
  proof (cases "strstr h p")
    case None
    then show ?thesis by (subst deps_loop.simps) simp
  next
    case (Some f)
    let ?h1 = "drop (length p) f"
    obtain n where pf: "prefix p f" and f: "f = drop n h" using strstr_Some [OF Some] by blast
    have cf: "directives_closed p f" using less.prems f directives_closed_drop by blast
    have ch1: "directives_closed p ?h1" using cf directives_closed_drop by blast
    show ?thesis
    proof (cases "drw_shader_library_search lib ?h1")
      case None
      have "CHR '')'' \<in> set ?h1" using directives_closed_prefix [OF cf pf p] .
      then obtain nm rest where sc: "dbg_name_scan cap 0 ?h1 = Inr (nm, rest)"
        using dbg_name_scan_total [OF cap] by blast
      obtain m where "rest = drop m ?h1" using dbg_name_scan_suffix [OF sc] by blast
      then have cr: "directives_closed p rest" using ch1 directives_closed_drop by blast
      have "length rest < length h" using scan_shorter_missing [OF p Some sc] .
      then obtain d' lg' where
        "deps_loop cap lib p rest d (lg @ [DependencyNotFound nm]) = Some (Inr (d', lg'))"
        using less.hyps cr by blast
      then show ?thesis using Some None sc by (subst deps_loop.simps) simp
    next
      case (Some dep)
      have "length ?h1 < length h" using scan_shorter_found [OF p \<open>strstr h p = Some f\<close>] .
      then obtain d' lg' where
        "deps_loop cap lib p ?h1 (d OR push_bit dep 1) lg = Some (Inr (d', lg'))"
        using less.hyps ch1 by blast
      then show ?thesis using \<open>strstr h p = Some f\<close> Some by (subst deps_loop.simps) simp
    qed
  qed
qed



lemma dbg_name_scan_takeWhile:
  assumes "name_buffer_ok cap"
  shows "CHR '')'' \<in> set h \<Longrightarrow> i + length (takeWhile (\<lambda>c. c \<noteq> CHR '')'') h) \<le> cap - 2 \<Longrightarrow>
           dbg_name_scan cap i h =
             Inr (takeWhile (\<lambda>c. c \<noteq> CHR '')'') h, dropWhile (\<lambda>c. c \<noteq> CHR '')'') h)"
proof (induction h arbitrary: i)
  case Nil
  then show ?case by simp
next
  case (Cons c cs)
  have lim: "dbg_limit cap = cap - 2" using assms by (rule dbg_limit_ok)
  have cap2: "2 \<le> cap" using assms by (simp add: name_buffer_ok_def)
  show ?case
  proof (cases "c = CHR '')''")
    case True
    then have "i < cap" using Cons.prems(2) cap2 by simp
    then show ?thesis using True by simp
  next
    case False
    then have i: "i < cap - 2" and nx: "Suc i + length (takeWhile (\<lambda>c. c \<noteq> CHR '')'') cs) \<le> cap - 2"
      and mem: "CHR '')'' \<in> set cs"
      using Cons.prems by auto
    have "i < cap" using i by simp
    then show ?thesis using False i lim Cons.IH [OF mem nx] by simp
  qed
qed

section \<open>Registration and expansion\<close>

lemma free_slot_loop_upt:
  "free_slot_loop lib [k..<n] = Some i \<longleftrightarrow>
     k \<le> i \<and> i < n \<and> libs lib ! i = None \<and> (\<forall>j. k \<le> j \<and> j < i \<longrightarrow> libs lib ! j \<noteq> None)"
proof (induction "n - k" arbitrary: k)
  case 0
  then show ?case by auto
next
  case (Suc d)
  then have kn: "k < n" and d: "d = n - Suc k" by auto
  have unf: "[k..<n] = k # [Suc k..<n]" using kn by (simp add: upt_conv_Cons)
  note IH = Suc.hyps(1)[OF d]
  show ?case
  proof (cases "libs lib ! k = None")
    case True
    have s: "free_slot_loop lib [k..<n] = Some k" unfolding unf using True by simp
    show ?thesis
    proof
      assume "free_slot_loop lib [k..<n] = Some i"
      then have "i = k" using s by simp
      then show "k \<le> i \<and> i < n \<and> libs lib ! i = None
          \<and> (\<forall>j. k \<le> j \<and> j < i \<longrightarrow> libs lib ! j \<noteq> None)"
        using True kn by auto
    next
      assume r: "k \<le> i \<and> i < n \<and> libs lib ! i = None
          \<and> (\<forall>j. k \<le> j \<and> j < i \<longrightarrow> libs lib ! j \<noteq> None)"
      have "\<not> k < i" using r True by blast
      then have "i = k" using r by simp
      then show "free_slot_loop lib [k..<n] = Some i" using s by simp
    qed
  next
    case False
    have e: "free_slot_loop lib [k..<n] = free_slot_loop lib [Suc k..<n]"
      unfolding unf using False by auto
    have b: "(\<forall>j. k \<le> j \<and> j < i \<longrightarrow> libs lib ! j \<noteq> None)
          \<longleftrightarrow> (\<forall>j. Suc k \<le> j \<and> j < i \<longrightarrow> libs lib ! j \<noteq> None)"
      using False by (metis Suc_leI le_neq_implies_less Suc_leD)
    have c: "libs lib ! i = None \<Longrightarrow> k \<le> i \<longleftrightarrow> Suc k \<le> i"
      using False by (metis Suc_leI le_neq_implies_less Suc_leD)
    show ?thesis
      unfolding e IH b using c by blast
  qed
qed

lemma and_one_test: "(w AND 1) \<noteq> 0 \<longleftrightarrow> bit w 0" for w :: "64 word"
  using bit_iff_and_push_bit_not_eq_0 [of w 0] by simp

lemma concat_loop_upt:
  assumes occ: "\<forall>j. j < n \<and> bit cd j \<longrightarrow> libs lib ! j \<noteq> None"
  shows "concat_loop lib [k..<n] (drop_bit k cd) ds =
           Inr (ds @ concat (map (\<lambda>i. the (libs lib ! i)) (filter (bit cd) [k..<n])))"
proof (induction "n - k" arbitrary: k ds)
  case 0
  then show ?case by simp
next
  case (Suc d)
  then have kn: "k < n" and d: "d = n - Suc k" by auto
  have unf: "[k..<n] = k # [Suc k..<n]" using kn by (simp add: upt_conv_Cons)
  note IH = Suc.hyps(1)[OF d]
  have sh: "drop_bit 1 (drop_bit k cd) = drop_bit (Suc k) cd" by simp
  have tb: "(drop_bit k cd AND 1) \<noteq> 0 \<longleftrightarrow> bit cd k"
    by (simp only: and_one_test bit_drop_bit_eq) simp
  show ?case
  proof (cases "drop_bit k cd = 0")
    case True
    have "\<not> bit cd j" if "k \<le> j" for j
    proof -
      have "bit (drop_bit k cd) (j - k) = bit cd j" using that by (simp add: bit_drop_bit_eq)
      then show ?thesis using True by simp
    qed
    then have "filter (bit cd) [k..<n] = []" by (auto simp: filter_empty_conv)
    then show ?thesis unfolding unf [symmetric] using True unf by (metis append_Nil2 concat.simps(1) concat_loop.simps(2) list.map(1))
  next
    case nz: False
    show ?thesis
    proof (cases "bit cd k")
      case True
      then obtain t where t: "libs lib ! k = Some t" using occ kn by auto
      have "concat_loop lib [k..<n] (drop_bit k cd) ds =
              concat_loop lib [Suc k..<n] (drop_bit (Suc k) cd) (ds @ t)"
        unfolding unf using nz tb True t sh by simp
      then show ?thesis unfolding IH unf using True t by simp
    next
      case False
      have "concat_loop lib [k..<n] (drop_bit k cd) ds =
              concat_loop lib [Suc k..<n] (drop_bit (Suc k) cd) ds"
        unfolding unf using nz tb False sh by simp
      then show ?thesis unfolding IH unf using False by simp
    qed
  qed
qed


lemma lib_inv_create: "lib_inv DRW_shader_library_create"
  unfolding lib_inv_def DRW_shader_library_create_def
  by (auto intro: exI [of _ 0])

lemma scan_bits_occupied:
  assumes "drw_shader_dependencies_get cap lib ''BLENDER_REQUIRE('' code = Some (Inr (deps, lg))"
    and "bit deps j"
  shows "j < MAX_LIB \<and> (\<forall>k\<le>j. libs lib ! k \<noteq> None)"
proof -
  have "bit (0::64 word) j \<or> (\<exists>t. drw_shader_library_search lib t = Some j)"
    using deps_loop_bits [of "''BLENDER_REQUIRE(''" cap lib code 0 "[]" deps lg j] assms
    by (simp add: drw_shader_dependencies_get_def)
  then obtain t where "drw_shader_library_search lib t = Some j" by auto
  then show ?thesis by (simp add: search_Some_iff)
qed

lemma add_file_inv:
  assumes inv: "lib_inv lib"
    and add: "DRW_shader_library_add_file ab cap lib code name = Some (Inr (lib', lg))"
  shows "lib_inv lib'"
proof (cases "free_slot_loop lib [0..<MAX_LIB]")
  case None
  then have "lib' = lib" using add
    by (auto simp: DRW_shader_library_add_file_def split: if_splits)
  then show ?thesis using inv by simp
next
  case (Some index)
  then have ix: "index < MAX_LIB" and free: "libs lib ! index = None"
    and below: "\<forall>j<index. libs lib ! j \<noteq> None"
    by (auto simp: free_slot_loop_upt)
  from inv obtain n where n: "n \<le> MAX_LIB"
    and occ: "\<forall>i<MAX_LIB. (libs lib ! i \<noteq> None) = (i < n)"
    unfolding lib_inv_def by blast
  have len: "length (libs lib) = MAX_LIB" "length (libs_name lib) = MAX_LIB"
    "length (libs_deps lib) = MAX_LIB"
    and old: "\<forall>i<MAX_LIB. libs lib ! i \<noteq> None \<longrightarrow> (\<forall>j. bit (libs_deps lib ! i) j \<longrightarrow> j \<le> i)"
    using inv unfolding lib_inv_def by auto
  have "\<not> index < n" using occ ix free by blast
  moreover have "\<not> n < index"
  proof
    assume "n < index"
    then have "libs lib ! n \<noteq> None" using below by blast
    moreover have "n < MAX_LIB" using \<open>n < index\<close> ix by simp
    ultimately show False using occ by blast
  qed
  ultimately have index: "index = n" by simp
  define lib2 where "lib2 = lib\<lparr>libs := (libs lib)[index := Some code],
      libs_name := (libs_name lib)[index := BLI_strncpy name MAX_LIB_NAME]\<rparr>"
  obtain deps where scan:
      "drw_shader_dependencies_get cap lib2 ''BLENDER_REQUIRE('' code = Some (Inr (deps, lg))"
    and lib': "lib' = lib2\<lparr>libs_deps := (libs_deps lib2)[index := deps]\<rparr>"
    using add Some unfolding DRW_shader_library_add_file_def lib2_def
    by (auto simp: Let_def split: option.splits sum.splits)
  have occ2: "(libs lib2 ! i \<noteq> None) = (i < Suc n)" if "i < MAX_LIB" for i
    using that occ len index by (auto simp: lib2_def nth_list_update less_Suc_eq)
  have newbits: "j \<le> index" if "bit deps j" for j
  proof (rule ccontr)
    assume "\<not> j \<le> index"
    then have lt: "Suc index \<le> j" by simp
    have j: "j < MAX_LIB" and all: "\<forall>k\<le>j. libs lib2 ! k \<noteq> None"
      using scan_bits_occupied [OF scan that] by auto
    have "libs lib2 ! Suc index \<noteq> None" using all lt by blast
    moreover have "Suc index < MAX_LIB" using lt j by simp
    ultimately show False using occ2 index by auto
  qed
  show ?thesis
    unfolding lib_inv_def
  proof (intro conjI)
    show "length (libs lib') = MAX_LIB" "length (libs_name lib') = MAX_LIB"
      "length (libs_deps lib') = MAX_LIB"
      using len by (simp_all add: lib' lib2_def)
    show "\<exists>m\<le>MAX_LIB. \<forall>i<MAX_LIB. (libs lib' ! i \<noteq> None) = (i < m)"
    proof (intro exI [of _ "Suc n"] conjI allI impI)
      show "Suc n \<le> MAX_LIB" using ix index by simp
      fix i assume "i < MAX_LIB"
      then show "(libs lib' ! i \<noteq> None) = (i < Suc n)"
        using occ2 by (simp add: lib')
    qed
    show "\<forall>i<MAX_LIB. libs lib' ! i \<noteq> None \<longrightarrow> (\<forall>j. bit (libs_deps lib' ! i) j \<longrightarrow> j \<le> i)"
    proof (intro allI impI)
      fix i j
      assume i: "i < MAX_LIB" and o: "libs lib' ! i \<noteq> None" and b: "bit (libs_deps lib' ! i) j"
      show "j \<le> i"
      proof (cases "i = index")
        case True
        then have "libs_deps lib' ! i = deps" using len ix by (simp add: lib' lib2_def)
        then show ?thesis using b newbits True by simp
      next
        case False
        then have "libs_deps lib' ! i = libs_deps lib ! i" and "libs lib' ! i = libs lib ! i"
          by (simp_all add: lib' lib2_def)
        then show ?thesis using old i o b by simp
      qed
    qed
  qed
qed

lemma add_files_inv:
  "lib_inv lib \<Longrightarrow> add_files ab cap lib regs = Some (Inr (lib', lg)) \<Longrightarrow> lib_inv lib'"
proof (induction regs arbitrary: lib lg)
  case Nil
  then show ?case by simp
next
  case (Cons r rs)
  then obtain lib1 lg1 lg2 where
    a: "DRW_shader_library_add_file ab cap lib (fst r) (snd r) = Some (Inr (lib1, lg1))"
    and b: "add_files ab cap lib1 rs = Some (Inr (lib', lg2))"
    by (auto split: option.splits sum.splits)
  have "lib_inv lib1" using add_file_inv [OF Cons.prems(1) a] .
  then show ?case using Cons.IH b by blast
qed


lemma closure_occupied:
  assumes inv: "lib_inv lib"
    and scan: "drw_shader_dependencies_get cap lib ''BLENDER_REQUIRE('' code = Some (Inr (deps, lg))"
    and j: "j \<in> required_closure lib deps"
  shows "j < MAX_LIB \<and> libs lib ! j \<noteq> None"
  using j
proof (induction rule: required_closure.induct)
  case (direct j)
  then show ?case using scan_bits_occupied [OF scan] by blast
next
  case (via i j)
  from inv obtain n where occ: "\<forall>i<MAX_LIB. (libs lib ! i \<noteq> None) = (i < n)"
    and old: "\<forall>i<MAX_LIB. libs lib ! i \<noteq> None \<longrightarrow> (\<forall>j. bit (libs_deps lib ! i) j \<longrightarrow> j \<le> i)"
    unfolding lib_inv_def by blast
  have "j \<le> i" using old via.hyps by blast
  moreover have "i < n" using occ via.hyps by blast
  ultimately have "j < n" and "j < MAX_LIB" using via.hyps by simp_all
  then show ?case using occ by blast
qed

lemma expand_result:
  assumes inv: "lib_inv lib"
    and scan: "drw_shader_dependencies_get cap lib ''BLENDER_REQUIRE('' code = Some (Inr (deps, lg))"
  shows "DRW_shader_library_create_shader_string cap lib code =
           Some (Inr (concat (map (\<lambda>i. the (libs lib ! i))
                        (filter (\<lambda>i. i \<in> required_closure lib deps) [0..<MAX_LIB])) @ code, lg))"
proof -
  have na: "\<forall>i<MAX_LIB. libs lib ! i \<noteq> None \<longrightarrow> (\<forall>j. bit (libs_deps lib ! i) j \<longrightarrow> j \<le> i)"
    using inv unfolding lib_inv_def by blast
  have cl: "{j. bit (close_deps lib deps) j} = required_closure lib deps"
    using close_deps_closure [OF na] .
  then have mem: "bit (close_deps lib deps) j \<longleftrightarrow> j \<in> required_closure lib deps" for j
    by blast
  have occ: "\<forall>j. j < MAX_LIB \<and> bit (close_deps lib deps) j \<longrightarrow> libs lib ! j \<noteq> None"
    using closure_occupied [OF inv scan] mem by blast
  have "concat_loop lib [0..<MAX_LIB] (drop_bit 0 (close_deps lib deps)) [] =
          Inr ([] @ concat (map (\<lambda>i. the (libs lib ! i))
                 (filter (bit (close_deps lib deps)) [0..<MAX_LIB])))"
    using occ by (rule concat_loop_upt)
  moreover have "filter (bit (close_deps lib deps)) [0..<MAX_LIB] =
      filter (\<lambda>i. i \<in> required_closure lib deps) [0..<MAX_LIB]"
    by (rule filter_cong [OF refl]) (simp add: mem)
  ultimately have "concat_loop lib [0..<MAX_LIB] (close_deps lib deps) [] =
          Inr (concat (map (\<lambda>i. the (libs lib ! i))
                 (filter (\<lambda>i. i \<in> required_closure lib deps) [0..<MAX_LIB])))"
    by simp
  then show ?thesis
    unfolding DRW_shader_library_create_shader_string_def using scan by simp
qed

lemma closure_indices:
  assumes inv: "lib_inv lib"
    and scan: "drw_shader_dependencies_get cap lib ''BLENDER_REQUIRE('' code = Some (Inr (deps, lg))"
  shows "sorted_wrt (<) (filter (\<lambda>i. i \<in> required_closure lib deps) [0..<MAX_LIB])"
    and "set (filter (\<lambda>i. i \<in> required_closure lib deps) [0..<MAX_LIB]) = required_closure lib deps"
proof -
  show "sorted_wrt (<) (filter (\<lambda>i. i \<in> required_closure lib deps) [0..<MAX_LIB])"
    by (rule sorted_wrt_filter) simp
  show "set (filter (\<lambda>i. i \<in> required_closure lib deps) [0..<MAX_LIB]) = required_closure lib deps"
    using closure_occupied [OF inv scan] by auto
qed

section \<open>The directives of a text\<close>

lemma strstr_None:
  "p \<noteq> [] \<Longrightarrow> strstr h p = None \<Longrightarrow> \<not> prefix p (drop n h)"
proof (induction h arbitrary: n)
  case Nil
  then show ?case by simp
next
  case (Cons c cs)
  then have np: "\<not> prefix p (c # cs)" and r: "strstr cs p = None"
    by (auto split: if_splits)
  show ?case
  proof (cases n)
    case 0
    then show ?thesis using np by simp
  next
    case (Suc k)
    then show ?thesis using Cons.IH [OF Cons.prems(1) r] by simp
  qed
qed

lemma strstr_first:
  "strstr h p = Some f \<Longrightarrow>
     \<exists>n0. n0 \<le> length h \<and> f = drop n0 h \<and> prefix p f \<and> (\<forall>n<n0. \<not> prefix p (drop n h))"
proof (induction h)
  case Nil
  then show ?case by (auto split: if_splits)
next
  case (Cons c cs)
  show ?case
  proof (cases "prefix p (c # cs)")
    case True
    then have "f = c # cs" using Cons.prems by simp
    then show ?thesis using True by (intro exI [of _ 0]) simp
  next
    case False
    then have "strstr cs p = Some f" using Cons.prems by simp
    then obtain n0 where n0: "n0 \<le> length cs" "f = drop n0 cs" "prefix p f"
      "\<forall>n<n0. \<not> prefix p (drop n cs)"
      using Cons.IH by blast
    have "\<forall>n<Suc n0. \<not> prefix p (drop n (c # cs))"
    proof (intro allI impI)
      fix n assume "n < Suc n0"
      then show "\<not> prefix p (drop n (c # cs))"
        using False n0(4) by (cases n) auto
    qed
    then show ?thesis using n0 by (intro exI [of _ "Suc n0"]) simp
  qed
qed

lemma no_overlap:
  assumes a: "prefix p (drop n0 h)" and b: "prefix p (drop n h)" and lt: "n0 < n"
    and ne: "p \<noteq> []" and uniq: "\<forall>k<length p. 0 < k \<longrightarrow> p ! k \<noteq> p ! 0"
  shows "n0 + length p \<le> n"
proof (rule ccontr)
  assume "\<not> n0 + length p \<le> n"
  then have k: "n - n0 < length p" "0 < n - n0" using lt by simp_all
  obtain r where r: "drop n0 h = p @ r" using a by (auto simp: prefix_def)
  obtain r' where r': "drop n h = p @ r'" using b by (auto simp: prefix_def)
  have nl: "n < length h"
  proof (rule ccontr)
    assume "\<not> n < length h"
    then have "drop n h = []" by simp
    then show False using r' ne by simp
  qed
  have "drop n0 h ! (n - n0) = h ! n" using lt nl by simp
  then have "h ! n = p ! (n - n0)" using r k by (simp add: nth_append)
  moreover have "drop n h ! 0 = h ! n" using nl by simp
  then have "h ! n = p ! 0" using r' ne by (simp add: nth_append)
  ultimately show False using uniq k by auto
qed

lemma require_unique_head:
  "\<forall>k<length ''BLENDER_REQUIRE(''. 0 < k \<longrightarrow> ''BLENDER_REQUIRE('' ! k \<noteq> ''BLENDER_REQUIRE('' ! 0"
  by (simp add: less_Suc_eq numeral_eq_Suc)


lemma rests_none:
  "p \<noteq> [] \<Longrightarrow> strstr h p = None \<Longrightarrow> directive_rests p h = []"
  by (induction h) (auto split: if_splits)

lemma rests_skip:
  "\<forall>k<n. \<not> prefix p (drop k h) \<Longrightarrow> directive_rests p h = directive_rests p (drop n h)"
proof (induction n arbitrary: h)
  case 0
  then show ?case by simp
next
  case (Suc n)
  show ?case
  proof (cases h)
    case Nil
    then show ?thesis by simp
  next
    case (Cons c cs)
    have "\<not> prefix p (drop 0 h)" using Suc.prems by blast
    then have np: "\<not> prefix p (c # cs)" using Cons by simp
    have "\<forall>k<n. \<not> prefix p (drop k cs)"
    proof (intro allI impI)
      fix k assume "k < n"
      then have "\<not> prefix p (drop (Suc k) h)" using Suc.prems by simp
      then show "\<not> prefix p (drop k cs)" using Cons by simp
    qed
    then have "directive_rests p cs = directive_rests p (drop n cs)" by (rule Suc.IH)
    then show ?thesis using Cons np by simp
  qed
qed

lemma rests_occurrence:
  "p \<noteq> [] \<Longrightarrow> prefix p (drop k xs) \<Longrightarrow> directive_rests p xs \<noteq> []"
proof (induction xs arbitrary: k)
  case Nil
  then show ?case by simp
next
  case (Cons c cs)
  then show ?case by (cases k) auto
qed

lemma rests_first:
  assumes ne: "p \<noteq> []" and f: "prefix p f"
    and gap: "\<forall>k. 0 < k \<and> k < m \<longrightarrow> \<not> prefix p (drop k f)" and m: "0 < m"
  shows "directive_rests p f = drop (length p) f # directive_rests p (drop m f)"
proof -
  obtain c cs where fc: "f = c # cs" using ne f by (cases f) auto
  have "\<forall>k<m - 1. \<not> prefix p (drop k cs)"
  proof (intro allI impI)
    fix k assume "k < m - 1"
    then have "\<not> prefix p (drop (Suc k) f)" using gap by simp
    then show "\<not> prefix p (drop k cs)" using fc by simp
  qed
  then have "directive_rests p cs = directive_rests p (drop (m - 1) cs)" by (rule rests_skip)
  moreover have "drop (m - 1) cs = drop m f" using fc m by (cases m) simp_all
  ultimately show ?thesis using fc f by simp
qed

lemma prefix_before:
  assumes "prefix p (ys @ c # zs)" and "c \<notin> set p"
  shows "prefix p ys"
proof -
  from assms(1) consider "prefix p ys" | us where "p = ys @ us" "prefix us (c # zs)"
    by (auto simp: prefix_append)
  then show ?thesis
  proof cases
    case 1
    then show ?thesis .
  next
    case 2
    show ?thesis
    proof (cases us)
      case Nil
      then show ?thesis using 2 by simp
    next
      case (Cons u us')
      then have "u = c" using 2(2) by simp
      then have False using 2(1) Cons assms(2) by simp
      then show ?thesis ..
    qed
  qed
qed

lemma dropWhile_stops:
  "c \<in> set xs \<Longrightarrow> \<exists>more. dropWhile (\<lambda>x. x \<noteq> c) xs = c # more"
  by (induction xs) auto

lemma lookup_targets_eq:
  "lookup_targets lib p code =
     {j. \<exists>r\<in>set (directive_rests p code). drw_shader_library_search lib r = Some j}"
  unfolding lookup_targets_def List.map_filter_def by force

lemma deps_loop_scan:
  assumes ne: "p \<noteq> []" and uniq: "\<forall>k<length p. 0 < k \<longrightarrow> p ! k \<noteq> p ! 0"
    and nop: "CHR '')'' \<notin> set p"
  shows "missing_fit cap lib p h \<Longrightarrow>
           \<exists>d'. deps_loop cap lib p h d lg
                  = Some (Inr (d', lg @ map DependencyNotFound (missing_names lib p h)))
               \<and> {j. bit d' j} = {j. bit d j} \<union> lookup_targets lib p h"
proof (induction "length h" arbitrary: h d lg rule: less_induct)
  case less
  show ?case
  proof (cases "strstr h p")
    case None
    then have "deps_loop cap lib p h d lg = Some (Inr (d, lg))"
      by (subst deps_loop.simps) simp
    moreover have "directive_rests p h = []" using rests_none [OF ne None] .
    ultimately show ?thesis by (simp add: missing_names_def lookup_targets_eq)
  next
    case (Some f)
    then obtain n0 where n0: "f = drop n0 h" "prefix p f" "\<forall>n<n0. \<not> prefix p (drop n h)"
      using strstr_first by blast
    let ?h1 = "drop (length p) f"
    have rh: "directive_rests p h = directive_rests p f"
      using rests_skip [OF n0(3)] n0(1) by simp
    have gap1: "\<not> prefix p (drop k f)" if "0 < k" "k < length p" for k
    proof
      assume "prefix p (drop k f)"
      moreover have "prefix p (drop 0 f)" using n0(2) by simp
      ultimately have "0 + length p \<le> k" using no_overlap [OF _ _ that(1) ne uniq] by blast
      then show False using that(2) by simp
    qed
    have lp: "0 < length p" using ne by simp
    show ?thesis
    proof (cases "drw_shader_library_search lib ?h1")
      case found: (Some dep)
      have rec: "deps_loop cap lib p h d lg = deps_loop cap lib p ?h1 (d OR push_bit dep 1) lg"
        using Some found by (subst deps_loop.simps) simp
      have gapp: "\<forall>k. 0 < k \<and> k < length p \<longrightarrow> \<not> prefix p (drop k f)"
        using gap1 by blast
      have rf: "directive_rests p f = ?h1 # directive_rests p ?h1"
        using rests_first [OF ne n0(2) gapp lp] .
      have fit1: "missing_fit cap lib p ?h1"
        using less.prems rh rf by (simp add: missing_fit_def)
      have "length ?h1 < length h" using scan_shorter_found [OF ne Some] .
      then obtain d' where IH:
        "deps_loop cap lib p ?h1 (d OR push_bit dep 1) lg
           = Some (Inr (d', lg @ map DependencyNotFound (missing_names lib p ?h1)))"
        "{j. bit d' j} = {j. bit (d OR push_bit dep 1) j} \<union> lookup_targets lib p ?h1"
        using less.hyps [OF _ fit1] by blast
      have mn: "missing_names lib p h = missing_names lib p ?h1"
        using rh rf found by (simp add: missing_names_def)
      have lt: "lookup_targets lib p h = insert dep (lookup_targets lib p ?h1)"
        using rh rf found by (auto simp: lookup_targets_eq)
      have "dep < 64" using found by (simp add: search_Some_iff MAX_LIB_def)
      then have "bit (2 ^ dep :: 64 word) j \<longleftrightarrow> j = dep" for j
        by (auto simp: bit_exp_iff)
      then have "{j. bit (d OR push_bit dep 1) j} = insert dep {j. bit d j}"
        by (auto simp: bit_or_iff)
      then show ?thesis using rec IH mn lt by auto
    next
      case None
      have gapp: "\<forall>k. 0 < k \<and> k < length p \<longrightarrow> \<not> prefix p (drop k f)"
        using gap1 by blast
      have rf0: "directive_rests p f = ?h1 # directive_rests p ?h1"
        using rests_first [OF ne n0(2) gapp lp] .
      then have "?h1 \<in> set (directive_rests p h)" using rh by simp
      then have fits: "name_fits cap p ?h1"
        using less.prems None by (simp add: missing_fit_def list_all_iff)
      let ?nm = "directive_name ?h1"
      let ?h2 = "dropWhile (\<lambda>c. c \<noteq> CHR '')'') ?h1"
      have cap: "name_buffer_ok cap" and cl: "CHR '')'' \<in> set ?h1"
        and room: "length ?nm \<le> cap - 2" and inner: "directive_rests p ?nm = []"
        using fits by (simp_all add: name_fits_def)
      have scan: "dbg_name_scan cap 0 ?h1 = Inr (?nm, ?h2)"
        using dbg_name_scan_takeWhile [OF cap cl, of 0] room by (simp add: directive_name_def)
      have rec: "deps_loop cap lib p h d lg =
                   deps_loop cap lib p ?h2 d (lg @ [DependencyNotFound ?nm])"
        using Some None scan by (subst deps_loop.simps) (simp add: Let_def)
      have e: "?nm @ ?h2 = ?h1" by (simp add: directive_name_def)
      obtain more where h2: "?h2 = CHR '')'' # more"
        using dropWhile_stops [OF cl] by blast
      have dn: "drop (length ?nm) (?nm @ ?h2) = ?h2" by simp
      have h2d: "?h2 = drop (length p + length ?nm) f"
      proof -
        have "drop (length ?nm) ?h1 = ?h2" using dn by (simp only: e)
        then show ?thesis by (simp add: add.commute)
      qed
      have gap: "\<not> prefix p (drop k f)" if k: "0 < k \<and> k < length p + length ?nm" for k
      proof (cases "k < length p")
        case True
        then show ?thesis using gap1 k by blast
      next
        case False
        define k2 where "k2 = k - length p"
        have k2: "k2 < length ?nm" "k = length p + k2" using False k unfolding k2_def by linarith+
        show ?thesis
        proof
          assume "prefix p (drop k f)"
          then have "prefix p (drop k2 ?h1)" using k2(2) by (simp add: add.commute)
          moreover have "drop k2 (?nm @ ?h2) = drop k2 ?nm @ ?h2" using k2(1) by simp
          then have "drop k2 ?h1 = drop k2 ?nm @ ?h2" by (simp only: e)
          ultimately have "prefix p (drop k2 ?nm @ CHR '')'' # more)"
            using h2 by simp
          then have "prefix p (drop k2 ?nm)" by (rule prefix_before) (rule nop)
          then have "directive_rests p ?nm \<noteq> []" by (rule rests_occurrence [OF ne])
          then show False using inner by simp
        qed
      qed
      have pos: "0 < length p + length ?nm" using lp by simp
      have gapall: "\<forall>k. 0 < k \<and> k < length p + length ?nm \<longrightarrow> \<not> prefix p (drop k f)"
        using gap by blast
      have rf: "directive_rests p f = ?h1 # directive_rests p ?h2"
        using rests_first [OF ne n0(2) gapall pos] by (simp only: h2d [symmetric])
      have fit2: "missing_fit cap lib p ?h2"
        using less.prems rh rf by (simp add: missing_fit_def)
      have "length ?h2 < length h" using scan_shorter_missing [OF ne Some scan] .
      then obtain d' where IH:
        "deps_loop cap lib p ?h2 d (lg @ [DependencyNotFound ?nm])
           = Some (Inr (d', (lg @ [DependencyNotFound ?nm])
                              @ map DependencyNotFound (missing_names lib p ?h2)))"
        "{j. bit d' j} = {j. bit d j} \<union> lookup_targets lib p ?h2"
        using less.hyps [OF _ fit2] by blast
      have mn: "missing_names lib p h = ?nm # missing_names lib p ?h2"
        using rh rf None by (simp add: missing_names_def)
      have lt: "lookup_targets lib p h = lookup_targets lib p ?h2"
        using rh rf None by (auto simp: lookup_targets_eq)
      show ?thesis using rec IH mn lt by auto
    qed
  qed
qed


section \<open>Expansion by name\<close>

lemma names_ok_each:
  assumes "names_ok regs" and "i < length regs"
  shows "length (snd (regs ! i)) < MAX_LIB_NAME" and "CHR '')'' \<notin> set (snd (regs ! i))"
proof -
  have "snd (regs ! i) \<in> set (map snd regs)" using assms(2) by simp
  then show "length (snd (regs ! i)) < MAX_LIB_NAME" and "CHR '')'' \<notin> set (snd (regs ! i))"
    using assms(1) unfolding names_ok_def list_all_iff by blast+
qed

lemma names_ok_prefix:
  assumes "names_ok regs" and "i < length regs" and "j < length regs"
    and "prefix (snd (regs ! i)) (snd (regs ! j))"
  shows "i = j"
  using assms unfolding names_ok_def list_all_iff by simp

lemma registered_in_order_below:
  assumes "registered_in_order regs" and "k < length regs"
    and "nm \<in> set (directive_names (fst (regs ! k)))"
  shows "\<exists>i<k. snd (regs ! i) = nm"
proof -
  have "set (directive_names (fst (regs ! k))) \<subseteq> set (map snd (take k regs))"
    using assms(1,2) unfolding registered_in_order_def list_all_iff by simp
  then have "nm \<in> set (map snd (take k regs))" using assms(3) by blast
  then obtain i where i: "i < length (map snd (take k regs))" "map snd (take k regs) ! i = nm"
    unfolding in_set_conv_nth by blast
  then have "i < k" "snd (regs ! i) = nm" using assms(2) by simp_all
  then show ?thesis by blast
qed

lemma source_resolves_some:
  assumes "source_resolves regs code" and "nm \<in> set (directive_names code)"
  shows "\<exists>i<length regs. snd (regs ! i) = nm"
proof -
  have "nm \<in> set (map snd regs)" using assms unfolding source_resolves_def by blast
  then obtain i where "i < length (map snd regs)" "map snd regs ! i = nm"
    unfolding in_set_conv_nth by blast
  then have "i < length regs" "snd (regs ! i) = nm" by simp_all
  then show ?thesis by blast
qed

lemma prefix_takeWhile:
  assumes "prefix xs ys" and "\<forall>x\<in>set xs. P x"
  shows "prefix xs (takeWhile P ys)"
proof -
  obtain zs where "ys = xs @ zs" using assms(1) by (auto simp: prefix_def)
  then have "takeWhile P ys = xs @ takeWhile P zs" using assms(2) by simp
  then show ?thesis by simp
qed

lemma directive_name_prefix: "prefix (directive_name r) r"
proof -
  have "r = directive_name r @ dropWhile (\<lambda>c. c \<noteq> CHR '')'') r"
    by (simp add: directive_name_def)
  then show ?thesis by (rule prefixI)
qed

lemma lookup_by_name:
  assumes ok: "names_ok regs" and k: "k \<le> length regs" "k \<le> MAX_LIB"
    and occ: "\<forall>i<k. libs lib ! i \<noteq> None"
    and nm: "\<forall>i<k. libs_name lib ! i = snd (regs ! i)"
    and i: "i < k" and r: "directive_name r = snd (regs ! i)"
  shows "drw_shader_library_search lib r = Some i"
proof -
  have a: "i < MAX_LIB" using i k by simp
  have b: "\<forall>j\<le>i. libs lib ! j \<noteq> None" using occ i by simp
  have c: "prefix (libs_name lib ! i) r" using nm i r directive_name_prefix [of r] by simp
  have d: "\<forall>j<i. \<not> prefix (libs_name lib ! j) r"
  proof (intro allI impI notI)
    fix j assume j: "j < i" and p: "prefix (libs_name lib ! j) r"
    have jl: "j < length regs" and il: "i < length regs" using j i k by simp_all
    have "libs_name lib ! j = snd (regs ! j)" using nm j i by simp
    then have p': "prefix (snd (regs ! j)) r" using p by simp
    have "\<forall>x\<in>set (snd (regs ! j)). x \<noteq> CHR '')''"
      using names_ok_each(2) [OF ok jl] by blast
    then have "prefix (snd (regs ! j)) (takeWhile (\<lambda>c. c \<noteq> CHR '')'') r)"
      using prefix_takeWhile [OF p'] by blast
    then have "prefix (snd (regs ! j)) (snd (regs ! i))" using r by (simp add: directive_name_def)
    then have "j = i" using names_ok_prefix [OF ok jl il] by blast
    then show False using j by simp
  qed
  show ?thesis using a b c d by (simp add: search_Some_iff)
qed

lemma targets_by_name:
  assumes ok: "names_ok regs" and k: "k \<le> length regs" "k \<le> MAX_LIB"
    and occ: "\<forall>i<k. libs lib ! i \<noteq> None"
    and nm: "\<forall>i<k. libs_name lib ! i = snd (regs ! i)"
    and res: "\<forall>n\<in>set (directive_names code). \<exists>i<k. snd (regs ! i) = n"
  shows "missing_names lib ''BLENDER_REQUIRE('' code = []"
    and "missing_fit cap lib ''BLENDER_REQUIRE('' code"
    and "lookup_targets lib ''BLENDER_REQUIRE('' code = named_fragments regs code"
proof -
  have found: "\<exists>i<k. snd (regs ! i) = directive_name r \<and> drw_shader_library_search lib r = Some i"
    if r: "r \<in> set (directive_rests ''BLENDER_REQUIRE('' code)" for r
  proof -
    have "directive_name r \<in> set (directive_names code)"
      using r by (simp add: directive_names_def)
    then obtain i where i: "i < k" "snd (regs ! i) = directive_name r" using res by blast
    then have "drw_shader_library_search lib r = Some i"
      using lookup_by_name [OF ok k occ nm, of i r] by simp
    then show ?thesis using i by blast
  qed
  have none: "\<forall>r\<in>set (directive_rests ''BLENDER_REQUIRE('' code).
                 drw_shader_library_search lib r \<noteq> None"
    using found by fastforce
  show "missing_names lib ''BLENDER_REQUIRE('' code = []"
    using none by (simp add: missing_names_def filter_empty_conv)
  show "missing_fit cap lib ''BLENDER_REQUIRE('' code"
    using none by (auto simp: missing_fit_def list_all_iff)
  show "lookup_targets lib ''BLENDER_REQUIRE('' code = named_fragments regs code"
  proof (intro set_eqI iffI)
    fix j assume "j \<in> lookup_targets lib ''BLENDER_REQUIRE('' code"
    then obtain r where r: "r \<in> set (directive_rests ''BLENDER_REQUIRE('' code)"
      and s: "drw_shader_library_search lib r = Some j"
      unfolding lookup_targets_eq by blast
    obtain i where i: "i < k" "snd (regs ! i) = directive_name r"
      "drw_shader_library_search lib r = Some i"
      using found [OF r] by blast
    have ji: "j = i" using s i(3) by simp
    have "directive_name r \<in> set (directive_names code)"
      using r by (simp add: directive_names_def)
    then show "j \<in> named_fragments regs code"
      using ji i k by (simp add: named_fragments_def)
  next
    fix j assume "j \<in> named_fragments regs code"
    then have jl: "j < length regs" and jn: "snd (regs ! j) \<in> set (directive_names code)"
      by (simp_all add: named_fragments_def)
    then obtain r where r: "r \<in> set (directive_rests ''BLENDER_REQUIRE('' code)"
      and rn: "directive_name r = snd (regs ! j)"
      by (auto simp: directive_names_def)
    obtain i where i: "i < k" "snd (regs ! i) = directive_name r"
      "drw_shader_library_search lib r = Some i"
      using found [OF r] by blast
    have il: "i < length regs" using i(1) k by simp
    have "prefix (snd (regs ! i)) (snd (regs ! j))" using i(2) rn by simp
    then have "i = j" using names_ok_prefix [OF ok il jl] by blast
    then show "j \<in> lookup_targets lib ''BLENDER_REQUIRE('' code"
      unfolding lookup_targets_eq using r i(3) by blast
  qed
qed

lemma reg_inv_create: "reg_inv regs 0 DRW_shader_library_create"
  by (simp add: reg_inv_def DRW_shader_library_create_def)

lemma scan_by_name:
  assumes ok: "names_ok regs" and k: "k \<le> length regs" "k \<le> MAX_LIB"
    and occ: "\<forall>i<k. libs lib ! i \<noteq> None"
    and nm: "\<forall>i<k. libs_name lib ! i = snd (regs ! i)"
    and res: "\<forall>n\<in>set (directive_names code). \<exists>i<k. snd (regs ! i) = n"
  shows "\<exists>deps. drw_shader_dependencies_get cap lib ''BLENDER_REQUIRE('' code = Some (Inr (deps, []))
           \<and> {j. bit deps j} = named_fragments regs code"
proof -
  note t = targets_by_name [OF ok k occ nm res]
  have ne: "''BLENDER_REQUIRE('' \<noteq> []" by simp
  have nop: "CHR '')'' \<notin> set ''BLENDER_REQUIRE(''" by simp
  obtain deps where s: "deps_loop cap lib ''BLENDER_REQUIRE('' code 0 []
        = Some (Inr (deps, [] @ map DependencyNotFound (missing_names lib ''BLENDER_REQUIRE('' code)))"
    and b: "{j. bit deps j} = {j. bit (0::64 word) j} \<union> lookup_targets lib ''BLENDER_REQUIRE('' code"
    using deps_loop_scan [OF ne require_unique_head nop t(2) [of cap], of 0 "[]"] by blast
  have "drw_shader_dependencies_get cap lib ''BLENDER_REQUIRE('' code = Some (Inr (deps, []))"
    using s t(1) by (simp add: drw_shader_dependencies_get_def)
  moreover have "{j. bit deps j} = named_fragments regs code" using b t(3) by simp
  ultimately show ?thesis by blast
qed

lemma add_file_by_name:
  assumes ok: "names_ok regs" and ord: "registered_in_order regs"
    and len: "length regs \<le> MAX_LIB" and k: "k < length regs"
    and inv: "reg_inv regs k lib"
  shows "\<exists>lib'. DRW_shader_library_add_file ab cap lib (fst (regs ! k)) (snd (regs ! k))
                  = Some (Inr (lib', []))
               \<and> reg_inv regs (Suc k) lib'"
proof -
  let ?code = "fst (regs ! k)" and ?name = "snd (regs ! k)"
  have kM: "k < MAX_LIB" using k len by simp
  have l: "length (libs lib) = MAX_LIB" "length (libs_name lib) = MAX_LIB"
    "length (libs_deps lib) = MAX_LIB"
    and cells: "\<forall>i<MAX_LIB. libs lib ! i = (if i < k then Some (fst (regs ! i)) else None)"
    and names: "\<forall>i<k. libs_name lib ! i = snd (regs ! i)"
    and deps: "\<forall>i<k. {j. bit (libs_deps lib ! i) j} = named_fragments regs (fst (regs ! i))"
    using inv unfolding reg_inv_def by blast+
  have free: "free_slot_loop lib [0..<MAX_LIB] = Some k"
    unfolding free_slot_loop_upt using kM cells by simp
  have cpy: "BLI_strncpy ?name MAX_LIB_NAME = ?name"
    using names_ok_each(1) [OF ok k] by (simp add: BLI_strncpy_def)
  define lib2 where "lib2 = lib\<lparr>libs := (libs lib)[k := Some ?code],
                                 libs_name := (libs_name lib)[k := ?name]\<rparr>"
  have occ2: "\<forall>i<Suc k. libs lib2 ! i \<noteq> None"
    using cells kM l by (simp add: lib2_def nth_list_update)
  have nm2: "\<forall>i<Suc k. libs_name lib2 ! i = snd (regs ! i)"
    using names kM l by (simp add: lib2_def nth_list_update less_Suc_eq)
  have res: "\<forall>n\<in>set (directive_names ?code). \<exists>i<Suc k. snd (regs ! i) = n"
    using registered_in_order_below [OF ord k] by (meson less_SucI)
  have k2: "Suc k \<le> length regs" "Suc k \<le> MAX_LIB" using k kM by simp_all
  obtain d where scan: "drw_shader_dependencies_get cap lib2 ''BLENDER_REQUIRE('' ?code
                          = Some (Inr (d, []))"
    and bits: "{j. bit d j} = named_fragments regs ?code"
    using scan_by_name [OF ok k2 occ2 nm2 res] by blast
  let ?lib' = "lib2\<lparr>libs_deps := (libs_deps lib)[k := d]\<rparr>"
  have add: "DRW_shader_library_add_file ab cap lib ?code ?name = Some (Inr (?lib', []))"
    using free scan cpy by (simp add: DRW_shader_library_add_file_def Let_def lib2_def)
  have "reg_inv regs (Suc k) ?lib'"
    unfolding reg_inv_def
  proof (intro conjI allI impI)
    show "length (libs ?lib') = MAX_LIB" "length (libs_name ?lib') = MAX_LIB"
      "length (libs_deps ?lib') = MAX_LIB"
      using l by (simp_all add: lib2_def)
  next
    fix i assume "i < MAX_LIB"
    then show "libs ?lib' ! i = (if i < Suc k then Some (fst (regs ! i)) else None)"
      using cells l kM by (auto simp: lib2_def nth_list_update less_Suc_eq)
  next
    fix i assume "i < Suc k"
    then show "libs_name ?lib' ! i = snd (regs ! i)" using nm2 by simp
  next
    fix i assume i: "i < Suc k"
    show "{j. bit (libs_deps ?lib' ! i) j} = named_fragments regs (fst (regs ! i))"
    proof (cases "i = k")
      case True
      then show ?thesis using bits l kM by simp
    next
      case False
      then have "i < k" using i by simp
      then show ?thesis using deps False by simp
    qed
  qed
  then show ?thesis using add by blast
qed

lemma add_files_by_name:
  assumes ok: "names_ok regs" and ord: "registered_in_order regs"
    and len: "length regs \<le> MAX_LIB"
  shows "k \<le> length regs \<Longrightarrow> reg_inv regs k lib \<Longrightarrow>
           \<exists>lib'. add_files ab cap lib (drop k regs) = Some (Inr (lib', []))
                \<and> reg_inv regs (length regs) lib'"
proof (induction "length regs - k" arbitrary: k lib)
  case 0
  then have "k = length regs" by simp
  then show ?case using "0.prems" by simp
next
  case (Suc n)
  then have k: "k < length regs" by simp
  obtain lib1 where a: "DRW_shader_library_add_file ab cap lib (fst (regs ! k)) (snd (regs ! k))
                          = Some (Inr (lib1, []))"
    and i1: "reg_inv regs (Suc k) lib1"
    using add_file_by_name [OF ok ord len k Suc.prems(2)] by blast
  have "n = length regs - Suc k" using Suc.hyps(2) by simp
  moreover have "Suc k \<le> length regs" using k by simp
  ultimately obtain lib' where b: "add_files ab cap lib1 (drop (Suc k) regs) = Some (Inr (lib', []))"
    and i2: "reg_inv regs (length regs) lib'"
    using Suc.hyps(1) i1 by blast
  have "drop k regs = regs ! k # drop (Suc k) regs" using k by (simp add: Cons_nth_drop_Suc)
  then have "add_files ab cap lib (drop k regs) = Some (Inr (lib', []))"
    using a b by simp
  then show ?case using i2 by blast
qed

lemma named_below: "j \<in> named_fragments regs code \<Longrightarrow> j < length regs"
  by (simp add: named_fragments_def)

lemma required_below: "j \<in> required_by_name regs code \<Longrightarrow> j < length regs"
  by (induction rule: required_by_name.induct) (simp_all add: named_below)

lemma closure_by_name:
  assumes inv: "reg_inv regs (length regs) lib" and len: "length regs \<le> MAX_LIB"
    and d: "{j. bit deps j} = named_fragments regs code"
  shows "required_closure lib deps = required_by_name regs code"
proof (intro set_eqI iffI)
  have cells: "\<forall>i<MAX_LIB. libs lib ! i = (if i < length regs then Some (fst (regs ! i)) else None)"
    and sd: "\<forall>i<length regs. {j. bit (libs_deps lib ! i) j} = named_fragments regs (fst (regs ! i))"
    using inv unfolding reg_inv_def by blast+
  {
    fix j assume "j \<in> required_closure lib deps"
    then show "j \<in> required_by_name regs code"
    proof (induction rule: required_closure.induct)
      case (direct j)
      then have "j \<in> named_fragments regs code" using d by blast
      then show ?case by (rule required_by_name.named)
    next
      case (via i j)
      have il: "i < length regs" using via.IH by (rule required_below)
      then have "j \<in> named_fragments regs (fst (regs ! i))" using sd via.hyps by blast
      then show ?case using required_by_name.nested via.IH by blast
    qed
  }
  {
    fix j assume "j \<in> required_by_name regs code"
    then show "j \<in> required_closure lib deps"
    proof (induction rule: required_by_name.induct)
      case (named j)
      then have "bit deps j" using d by blast
      then show ?case by (rule required_closure.direct)
    next
      case (nested i j)
      have il: "i < length regs" using nested.hyps(1) by (rule required_below)
      then have iM: "i < MAX_LIB" using len by simp
      have "libs lib ! i \<noteq> None" using cells il iM by simp
      moreover have "bit (libs_deps lib ! i) j" using sd il nested.hyps(2) by blast
      ultimately show ?case using required_closure.via nested.IH iM by blast
    qed
  }
qed

text \<open>
  C2 (as amended). For every sequence of at most \<open>MAX_LIB\<close> \<open>register\<close> calls on a
  fresh library whose names fit the name slot, hold no closing parenthesis and of which
  none is a prefix of another, in which every directive of a fragment names a fragment
  registered before it, and every shader source whose directives name registered
  fragments: the registrations return and log nothing, and \<open>expand\<close> returns the
  texts of the fragments the source requires by name, directly or through required
  fragments, each once and in ascending registration order (\<open>idx\<close> is strictly
  increasing and lists exactly the required fragments), followed by the shader source.
\<close>

theorem expand_concatenates_required_once:
  assumes len: "length regs \<le> MAX_LIB" and ok: "names_ok regs"
    and ord: "registered_in_order regs" and src: "source_resolves regs shader_code"
  shows "\<exists>lib idx. add_files assert_abort max_name DRW_shader_library_create regs
                      = Some (Inr (lib, []))
           \<and> sorted_wrt (<) idx \<and> set idx = required_by_name regs shader_code
           \<and> DRW_shader_library_create_shader_string max_name lib shader_code =
               Some (Inr (concat (map (\<lambda>i. fst (regs ! i)) idx) @ shader_code, []))"
proof -
  obtain lib where built: "add_files assert_abort max_name DRW_shader_library_create regs
                             = Some (Inr (lib, []))"
    and rinv: "reg_inv regs (length regs) lib"
    using add_files_by_name [OF ok ord len, of 0 DRW_shader_library_create assert_abort max_name]
      reg_inv_create by auto
  have inv: "lib_inv lib" using add_files_inv [OF lib_inv_create built] .
  have cells: "\<forall>i<MAX_LIB. libs lib ! i = (if i < length regs then Some (fst (regs ! i)) else None)"
    and names: "\<forall>i<length regs. libs_name lib ! i = snd (regs ! i)"
    using rinv unfolding reg_inv_def by blast+
  have occ: "\<forall>i<length regs. libs lib ! i \<noteq> None" using cells len by simp
  have res: "\<forall>n\<in>set (directive_names shader_code). \<exists>i<length regs. snd (regs ! i) = n"
    using source_resolves_some [OF src] by blast
  obtain deps where scan: "drw_shader_dependencies_get max_name lib ''BLENDER_REQUIRE('' shader_code
                             = Some (Inr (deps, []))"
    and bits: "{j. bit deps j} = named_fragments regs shader_code"
    using scan_by_name [OF ok order_refl len occ names res] by blast
  let ?idx = "filter (\<lambda>i. i \<in> required_closure lib deps) [0..<MAX_LIB]"
  have cl: "required_closure lib deps = required_by_name regs shader_code"
    using closure_by_name [OF rinv len bits] .
  have so: "sorted_wrt (<) ?idx" and se: "set ?idx = required_closure lib deps"
    using closure_indices [OF inv scan] by blast+
  have "\<forall>i\<in>set ?idx. the (libs lib ! i) = fst (regs ! i)"
  proof
    fix i assume "i \<in> set ?idx"
    then have "i \<in> required_by_name regs shader_code" using se cl by blast
    then have "i < length regs" by (rule required_below)
    then show "the (libs lib ! i) = fst (regs ! i)" using cells len by simp
  qed
  then have meq: "map (\<lambda>i. the (libs lib ! i)) ?idx = map (\<lambda>i. fst (regs ! i)) ?idx"
    by (intro map_cong) simp_all
  have "DRW_shader_library_create_shader_string max_name lib shader_code =
               Some (Inr (concat (map (\<lambda>i. fst (regs ! i)) ?idx) @ shader_code, []))"
    using expand_result [OF inv scan] by (simp only: meq)
  then show ?thesis using built so se cl by blast
qed


lemma ab_len: "length ab_regs \<le> MAX_LIB"
  by (simp add: ab_regs_def MAX_LIB_def)

lemma ab_names_ok: "names_ok ab_regs"
  by code_simp

lemma ab_order: "registered_in_order ab_regs"
  by code_simp

lemma ab_source: "source_resolves ab_regs ''BLENDER_REQUIRE(B)void main(){}''"
  by code_simp

lemma ab_built: "add_files False 64 DRW_shader_library_create ab_regs = Some (Inr (ab_lib, []))"
  by code_simp

lemma ab_expand:
  "DRW_shader_library_create_shader_string 64 ab_lib ''BLENDER_REQUIRE(B)void main(){}'' =
     Some (Inr (''float a;BLENDER_REQUIRE(A)float b;BLENDER_REQUIRE(B)void main(){}'', []))"
  by code_simp

lemma ab_named_source: "named_fragments ab_regs ''BLENDER_REQUIRE(B)void main(){}'' = {1}"
  by code_simp

lemma ab_named_A: "named_fragments ab_regs (fst (ab_regs ! 0)) = {}"
  by code_simp

lemma ab_named_B: "named_fragments ab_regs (fst (ab_regs ! 1)) = {0}"
  by code_simp

lemma ab_required: "required_by_name ab_regs ''BLENDER_REQUIRE(B)void main(){}'' = {0, 1}"
proof (intro set_eqI iffI)
  fix j assume "j \<in> required_by_name ab_regs ''BLENDER_REQUIRE(B)void main(){}''"
  then show "j \<in> {0, 1}"
  proof (induction rule: required_by_name.induct)
    case (named j)
    then show ?case using ab_named_source by simp
  next
    case (nested i j)
    then consider "i = 0" | "i = 1" by auto
    then show ?case
    proof cases
      case 1
      then show ?thesis using nested.hyps(2) ab_named_A by simp
    next
      case 2
      then show ?thesis using nested.hyps(2) ab_named_B by simp
    qed
  qed
next
  fix j :: nat assume "j \<in> {0, 1}"
  have one: "1 \<in> required_by_name ab_regs ''BLENDER_REQUIRE(B)void main(){}''"
    by (rule required_by_name.named) (simp add: ab_named_source)
  have "0 \<in> named_fragments ab_regs (fst (ab_regs ! 1))"
    unfolding ab_named_B by (rule insertI1)
  then have "0 \<in> required_by_name ab_regs ''BLENDER_REQUIRE(B)void main(){}''"
    using required_by_name.nested [OF one] by blast
  then show "j \<in> required_by_name ab_regs ''BLENDER_REQUIRE(B)void main(){}''"
    using one \<open>j \<in> {0, 1}\<close> by auto
qed

theorem expand_concatenates_required_once_witness:
  "length ab_regs \<le> MAX_LIB \<and> names_ok ab_regs \<and> registered_in_order ab_regs
   \<and> source_resolves ab_regs ''BLENDER_REQUIRE(B)void main(){}''
   \<and> (\<exists>lib idx. add_files False 64 DRW_shader_library_create ab_regs = Some (Inr (lib, []))
         \<and> sorted_wrt (<) idx
         \<and> set idx = required_by_name ab_regs ''BLENDER_REQUIRE(B)void main(){}''
         \<and> DRW_shader_library_create_shader_string 64 lib ''BLENDER_REQUIRE(B)void main(){}'' =
             Some (Inr (concat (map (\<lambda>i. fst (ab_regs ! i)) idx)
                          @ ''BLENDER_REQUIRE(B)void main(){}'', [])))
   \<and> required_by_name ab_regs ''BLENDER_REQUIRE(B)void main(){}'' = {0, 1}
   \<and> add_files False 64 DRW_shader_library_create ab_regs = Some (Inr (ab_lib, []))
   \<and> DRW_shader_library_create_shader_string 64 ab_lib ''BLENDER_REQUIRE(B)void main(){}'' =
        Some (Inr (''float a;BLENDER_REQUIRE(A)float b;BLENDER_REQUIRE(B)void main(){}'', []))"
  using expand_concatenates_required_once [OF ab_len ab_names_ok ab_order ab_source, of False 64]
    ab_len ab_names_ok ab_order ab_source ab_required ab_built ab_expand
  by (intro conjI) (blast+)

lemma prefix_len: "length prefix_regs \<le> MAX_LIB"
  by (simp add: prefix_regs_def MAX_LIB_def)

lemma prefix_order: "registered_in_order prefix_regs"
  by code_simp

lemma prefix_source: "source_resolves prefix_regs ''BLENDER_REQUIRE(common_math)void main(){}''"
  by code_simp

lemma prefix_built:
  "add_files False 64 DRW_shader_library_create prefix_regs = Some (Inr (prefix_lib, []))"
  by code_simp

lemma prefix_expand:
  "DRW_shader_library_create_shader_string 64 prefix_lib
     ''BLENDER_REQUIRE(common_math)void main(){}'' =
     Some (Inr (''float c;BLENDER_REQUIRE(common_math)void main(){}'', []))"
  by code_simp

lemma prefix_named_source:
  "named_fragments prefix_regs ''BLENDER_REQUIRE(common_math)void main(){}'' = {1}"
  by code_simp

lemma prefix_named_1: "named_fragments prefix_regs (fst (prefix_regs ! 1)) = {}"
  by code_simp

lemma prefix_required:
  "required_by_name prefix_regs ''BLENDER_REQUIRE(common_math)void main(){}'' = {1}"
proof (intro set_eqI iffI)
  fix j assume "j \<in> required_by_name prefix_regs ''BLENDER_REQUIRE(common_math)void main(){}''"
  then show "j \<in> {1}"
  proof (induction rule: required_by_name.induct)
    case (named j)
    then show ?case using prefix_named_source by simp
  next
    case (nested i j)
    then show ?case using prefix_named_1 by simp
  qed
next
  fix j :: nat assume "j \<in> {1}"
  then show "j \<in> required_by_name prefix_regs ''BLENDER_REQUIRE(common_math)void main(){}''"
    using required_by_name.named [of 1 prefix_regs "''BLENDER_REQUIRE(common_math)void main(){}''"]
    by (simp add: prefix_named_source)
qed

text \<open>
  The claim as stated fails where a registered name is a prefix of another. With
  \<open>common\<close> and \<open>common_math\<close> registered in this order (no fragment has a
  directive, nothing is logged), a shader source that requires \<open>common_math\<close>
  requires fragment 1 and nothing else; \<open>expand\<close> returns the text of fragment 0,
  \<open>common\<close>, and the source, and the text of \<open>common_math\<close> is absent.
\<close>

theorem expand_prefix_name_counterexample:
  "length prefix_regs \<le> MAX_LIB \<and> registered_in_order prefix_regs
   \<and> source_resolves prefix_regs ''BLENDER_REQUIRE(common_math)void main(){}''
   \<and> add_files False 64 DRW_shader_library_create prefix_regs = Some (Inr (prefix_lib, []))
   \<and> required_by_name prefix_regs ''BLENDER_REQUIRE(common_math)void main(){}'' = {1}
   \<and> fst (prefix_regs ! 0) = ''float c;'' \<and> fst (prefix_regs ! 1) = ''float m;''
   \<and> DRW_shader_library_create_shader_string 64 prefix_lib
         ''BLENDER_REQUIRE(common_math)void main(){}'' =
       Some (Inr (''float c;'' @ ''BLENDER_REQUIRE(common_math)void main(){}'', []))"
  using prefix_len prefix_order prefix_source prefix_built prefix_required prefix_expand
  by (simp add: prefix_regs_def)

section \<open>Forward references\<close>

lemma closure_bounded:
  assumes na: "\<forall>i<MAX_LIB. libs lib ! i \<noteq> None \<longrightarrow> (\<forall>j. bit (libs_deps lib ! i) j \<longrightarrow> j \<le> i)"
    and d: "\<forall>j. bit deps j \<longrightarrow> j \<le> k"
    and j: "j \<in> required_closure lib deps"
  shows "j \<le> k"
  using j
proof (induction rule: required_closure.induct)
  case (direct j)
  then show ?case using d by blast
next
  case (via i j)
  then have "j \<le> i" using na by blast
  then show ?case using via.IH by simp
qed

lemma built_deps_not_above:
  assumes "add_files ab cap DRW_shader_library_create regs = Some (Inr (lib, lg))"
  shows "deps_not_above lib"
proof -
  have inv: "lib_inv lib" using add_files_inv [OF lib_inv_create assms] .
  then have na: "\<forall>i<MAX_LIB. libs lib ! i \<noteq> None \<longrightarrow> (\<forall>j. bit (libs_deps lib ! i) j \<longrightarrow> j \<le> i)"
    unfolding lib_inv_def by blast
  show ?thesis
    unfolding deps_not_above_def list_all_iff
  proof (intro ballI impI)
    fix i assume "i \<in> set [0..<MAX_LIB]" and o: "libs lib ! i \<noteq> None"
    then have "i < MAX_LIB" by simp
    then have "\<forall>j. bit (libs_deps lib ! i) j \<longrightarrow> j < Suc i" using na o by (simp add: less_Suc_eq_le)
    then show "take_bit (Suc i) (libs_deps lib ! i) = libs_deps lib ! i"
      using take_bit_eq_iff_bits by blast
  qed
qed

lemma search_None_iff:
  "drw_shader_library_search lib name = None \<longleftrightarrow>
     (\<forall>i<MAX_LIB. (\<forall>j\<le>i. libs lib ! j \<noteq> None) \<longrightarrow> \<not> prefix (libs_name lib ! i) name)"
proof
  assume n: "drw_shader_library_search lib name = None"
  show "\<forall>i<MAX_LIB. (\<forall>j\<le>i. libs lib ! j \<noteq> None) \<longrightarrow> \<not> prefix (libs_name lib ! i) name"
  proof (intro allI impI notI)
    fix i assume i: "i < MAX_LIB" "\<forall>j\<le>i. libs lib ! j \<noteq> None" "prefix (libs_name lib ! i) name"
    define P where "P = (\<lambda>k. prefix (libs_name lib ! k) name)"
    define i0 where "i0 = (LEAST k. P k)"
    have "P i" using i(3) by (simp add: P_def)
    then have p0: "P i0" and le: "i0 \<le> i" and least: "\<forall>k<i0. \<not> P k"
      unfolding i0_def by (auto intro: LeastI Least_le dest: not_less_Least)
    have "drw_shader_library_search lib name = Some i0"
      unfolding search_Some_iff using p0 le least i(1,2) by (auto simp: P_def)
    then show False using n by simp
  qed
next
  assume a: "\<forall>i<MAX_LIB. (\<forall>j\<le>i. libs lib ! j \<noteq> None) \<longrightarrow> \<not> prefix (libs_name lib ! i) name"
  show "drw_shader_library_search lib name = None"
  proof (cases "drw_shader_library_search lib name")
    case None
    then show ?thesis .
  next
    case (Some i)
    then have "i < MAX_LIB" "\<forall>j\<le>i. libs lib ! j \<noteq> None" "prefix (libs_name lib ! i) name"
      by (simp_all add: search_Some_iff)
    then show ?thesis using a by blast
  qed
qed

lemma add_file_scan:
  assumes free: "free_slot_loop lib0 [0..<MAX_LIB] = Some index"
    and fit: "missing_fit cap (store_slot lib0 index code name) ''BLENDER_REQUIRE('' code"
  shows "\<exists>deps. DRW_shader_library_add_file ab cap lib0 code name =
            Some (Inr ((store_slot lib0 index code name)\<lparr>libs_deps := (libs_deps lib0)[index := deps]\<rparr>,
                       map DependencyNotFound
                         (missing_names (store_slot lib0 index code name) ''BLENDER_REQUIRE('' code)))
          \<and> {j. bit deps j} = lookup_targets (store_slot lib0 index code name) ''BLENDER_REQUIRE('' code"
proof -
  let ?lib2 = "store_slot lib0 index code name"
  have ne: "''BLENDER_REQUIRE('' \<noteq> []" by simp
  have nop: "CHR '')'' \<notin> set ''BLENDER_REQUIRE(''" by simp
  obtain deps where s: "deps_loop cap ?lib2 ''BLENDER_REQUIRE('' code 0 []
        = Some (Inr (deps, [] @ map DependencyNotFound (missing_names ?lib2 ''BLENDER_REQUIRE('' code)))"
    and b: "{j. bit deps j} = {j. bit (0::64 word) j} \<union> lookup_targets ?lib2 ''BLENDER_REQUIRE('' code"
    using deps_loop_scan [OF ne require_unique_head nop fit, of 0 "[]"] by blast
  have "DRW_shader_library_add_file ab cap lib0 code name =
            Some (Inr (?lib2\<lparr>libs_deps := (libs_deps lib0)[index := deps]\<rparr>,
                       map DependencyNotFound (missing_names ?lib2 ''BLENDER_REQUIRE('' code)))"
    using free s
    by (simp add: DRW_shader_library_add_file_def drw_shader_dependencies_get_def store_slot_def Let_def)
  then show ?thesis using b by auto
qed

text \<open>
  C7 (as amended). A \<open>register\<close> call that finds a free slot, and in whose source
  every directive whose lookup fails is closed by a parenthesis after a name that has
  room in the name buffer and holds no directive, returns; it logs the names of
  exactly the directives whose lookup fails, in textual order, and the dependency bits
  it stores are exactly the slots that the lookups of the other directives return, so
  no bit is set for a missing name. The dependencies stored for a slot by registration
  are never slots above it, so a fragment registered later is not named by an earlier
  one; and when the direct dependencies of a shader source are slots not above \<open>k\<close>,
  \<open>expand\<close> appends texts of slots not above \<open>k\<close> only. The lookup behind a
  directive fails exactly when no slot before the first empty one has a stored name
  that is a prefix of the text behind the directive.
\<close>

theorem forward_reference_logged_and_not_pulled_in:
  "(free_slot_loop lib0 [0..<MAX_LIB] = Some index
       \<and> missing_fit max_name (store_slot lib0 index lib_code lib_name) ''BLENDER_REQUIRE('' lib_code \<longrightarrow>
      (\<exists>deps0. DRW_shader_library_add_file assert_abort max_name lib0 lib_code lib_name =
            Some (Inr ((store_slot lib0 index lib_code lib_name)
                          \<lparr>libs_deps := (libs_deps lib0)[index := deps0]\<rparr>,
                       map DependencyNotFound
                         (missing_names (store_slot lib0 index lib_code lib_name)
                            ''BLENDER_REQUIRE('' lib_code)))
          \<and> {j. bit deps0 j} =
              lookup_targets (store_slot lib0 index lib_code lib_name) ''BLENDER_REQUIRE('' lib_code))
   \<and> (add_files assert_abort max_name DRW_shader_library_create regs = Some (Inr (lib, lg)) \<longrightarrow>
      deps_not_above lib)
   \<and> (add_files assert_abort max_name DRW_shader_library_create regs = Some (Inr (lib, lg))
       \<and> drw_shader_dependencies_get max_name lib ''BLENDER_REQUIRE('' shader_code
            = Some (Inr (deps, lg2))
       \<and> take_bit (Suc k) deps = deps \<longrightarrow>
      (\<exists>idx. (\<forall>i\<in>set idx. i \<le> k)
         \<and> DRW_shader_library_create_shader_string max_name lib shader_code =
             Some (Inr (concat (map (\<lambda>i. the (libs lib ! i)) idx) @ shader_code, lg2))))
   \<and> (drw_shader_library_search lib1 rest = None \<longleftrightarrow>
        (\<forall>i<MAX_LIB. (\<forall>j\<le>i. libs lib1 ! j \<noteq> None) \<longrightarrow> \<not> prefix (libs_name lib1 ! i) rest))"
proof (intro conjI impI)
  show "drw_shader_library_search lib1 rest = None \<longleftrightarrow>
        (\<forall>i<MAX_LIB. (\<forall>j\<le>i. libs lib1 ! j \<noteq> None) \<longrightarrow> \<not> prefix (libs_name lib1 ! i) rest)"
    by (rule search_None_iff)
next
  assume "free_slot_loop lib0 [0..<MAX_LIB] = Some index
       \<and> missing_fit max_name (store_slot lib0 index lib_code lib_name) ''BLENDER_REQUIRE('' lib_code"
  then show "\<exists>deps0. DRW_shader_library_add_file assert_abort max_name lib0 lib_code lib_name =
            Some (Inr ((store_slot lib0 index lib_code lib_name)
                          \<lparr>libs_deps := (libs_deps lib0)[index := deps0]\<rparr>,
                       map DependencyNotFound
                         (missing_names (store_slot lib0 index lib_code lib_name)
                            ''BLENDER_REQUIRE('' lib_code)))
          \<and> {j. bit deps0 j} =
              lookup_targets (store_slot lib0 index lib_code lib_name) ''BLENDER_REQUIRE('' lib_code"
    using add_file_scan by blast
next
  assume "add_files assert_abort max_name DRW_shader_library_create regs = Some (Inr (lib, lg))"
  then show "deps_not_above lib" by (rule built_deps_not_above)
next
  assume h: "add_files assert_abort max_name DRW_shader_library_create regs = Some (Inr (lib, lg))
       \<and> drw_shader_dependencies_get max_name lib ''BLENDER_REQUIRE('' shader_code
            = Some (Inr (deps, lg2))
       \<and> take_bit (Suc k) deps = deps"
  then have inv: "lib_inv lib" using add_files_inv [OF lib_inv_create] by blast
  then have na: "\<forall>i<MAX_LIB. libs lib ! i \<noteq> None \<longrightarrow> (\<forall>j. bit (libs_deps lib ! i) j \<longrightarrow> j \<le> i)"
    unfolding lib_inv_def by blast
  have "\<forall>j. bit deps j \<longrightarrow> j < Suc k" using h take_bit_eq_iff_bits by blast
  then have d: "\<forall>j. bit deps j \<longrightarrow> j \<le> k" by (simp add: less_Suc_eq_le)
  let ?idx = "filter (\<lambda>i. i \<in> required_closure lib deps) [0..<MAX_LIB]"
  have "\<forall>i\<in>set ?idx. i \<le> k" using closure_bounded [OF na d] by simp
  moreover have "DRW_shader_library_create_shader_string max_name lib shader_code =
             Some (Inr (concat (map (\<lambda>i. the (libs lib ! i)) ?idx) @ shader_code, lg2))"
    using expand_result [OF inv] h by blast
  ultimately show "\<exists>idx. (\<forall>i\<in>set idx. i \<le> k)
         \<and> DRW_shader_library_create_shader_string max_name lib shader_code =
             Some (Inr (concat (map (\<lambda>i. the (libs lib ! i)) idx) @ shader_code, lg2))"
    by blast
qed

lemma fwd_free: "free_slot_loop DRW_shader_library_create [0..<MAX_LIB] = Some 0"
  by code_simp

lemma buffer_64_ok: "name_buffer_ok 64"
  by (simp add: name_buffer_ok_def)

lemma fwd_rests:
  "directive_rests ''BLENDER_REQUIRE('' ''BLENDER_REQUIRE(A)float b;'' = [''A)float b;'']"
  by code_simp

lemma fwd_name: "directive_name ''A)float b;'' = ''A''"
  by code_simp

lemma fwd_inner: "directive_rests ''BLENDER_REQUIRE('' ''A'' = []"
  by code_simp

lemma fwd_fit:
  "missing_fit 64 (store_slot DRW_shader_library_create 0 ''BLENDER_REQUIRE(A)float b;'' ''B'')
     ''BLENDER_REQUIRE('' ''BLENDER_REQUIRE(A)float b;''"
  unfolding missing_fit_def name_fits_def fwd_rests
  using buffer_64_ok fwd_name fwd_inner by simp

lemma fwd_missing_names:
  "missing_names (store_slot DRW_shader_library_create 0 ''BLENDER_REQUIRE(A)float b;'' ''B'')
     ''BLENDER_REQUIRE('' ''BLENDER_REQUIRE(A)float b;'' = [''A'']"
  by code_simp

lemma fwd_targets:
  "lookup_targets (store_slot DRW_shader_library_create 0 ''BLENDER_REQUIRE(A)float b;'' ''B'')
     ''BLENDER_REQUIRE('' ''BLENDER_REQUIRE(A)float b;'' = {}"
  by code_simp

lemma fwd_built:
  "add_files False 64 DRW_shader_library_create fwd_regs =
     Some (Inr (fwd_lib, [DependencyNotFound ''A'']))"
  by code_simp

lemma fwd_scan_B:
  "drw_shader_dependencies_get 64 fwd_lib ''BLENDER_REQUIRE('' ''BLENDER_REQUIRE(B)void main(){}''
     = Some (Inr (1, []))"
  by code_simp

lemma fwd_expand_B:
  "DRW_shader_library_create_shader_string 64 fwd_lib ''BLENDER_REQUIRE(B)void main(){}'' =
     Some (Inr (''BLENDER_REQUIRE(A)float b;BLENDER_REQUIRE(B)void main(){}'', []))"
  by code_simp

lemma one_below_one: "take_bit (Suc 0) (1::64 word) = 1"
  by simp

lemma silent_built:
  "add_files False 64 DRW_shader_library_create silent_regs = Some (Inr (silent_lib, []))"
  by code_simp

lemma silent_expand:
  "DRW_shader_library_create_shader_string 64 silent_lib ''BLENDER_REQUIRE(B)void main(){}'' =
     Some (Inr (''float c;BLENDER_REQUIRE(common_math)float b;BLENDER_REQUIRE(B)void main(){}'', []))"
  by code_simp

lemma long_name_log:
  "map_option (map_sum id snd)
     (DRW_shader_library_add_file False 64 DRW_shader_library_create
        (''BLENDER_REQUIRE('' @ replicate 70 (CHR ''x'') @ '')'') ''L'')
     = Some (Inr [DependencyNotFound (replicate 62 (CHR ''x''))])"
  by code_simp

lemma fwd_lookup_fails:
  "drw_shader_library_search
     (store_slot DRW_shader_library_create 0 ''BLENDER_REQUIRE(A)float b;'' ''B'')
     ''A)float b;'' = None"
  by code_simp

theorem forward_reference_logged_and_not_pulled_in_witness:
  "free_slot_loop DRW_shader_library_create [0..<MAX_LIB] = Some 0
   \<and> missing_fit 64 (store_slot DRW_shader_library_create 0 ''BLENDER_REQUIRE(A)float b;'' ''B'')
         ''BLENDER_REQUIRE('' ''BLENDER_REQUIRE(A)float b;''
   \<and> drw_shader_library_search
         (store_slot DRW_shader_library_create 0 ''BLENDER_REQUIRE(A)float b;'' ''B'')
         ''A)float b;'' = None
   \<and> (\<exists>deps0. DRW_shader_library_add_file False 64 DRW_shader_library_create
                   ''BLENDER_REQUIRE(A)float b;'' ''B'' =
            Some (Inr ((store_slot DRW_shader_library_create 0 ''BLENDER_REQUIRE(A)float b;'' ''B'')
                          \<lparr>libs_deps := (libs_deps DRW_shader_library_create)[0 := deps0]\<rparr>,
                       map DependencyNotFound [''A'']))
          \<and> {j. bit deps0 j} = {})
   \<and> add_files False 64 DRW_shader_library_create fwd_regs =
       Some (Inr (fwd_lib, [DependencyNotFound ''A'']))
   \<and> deps_not_above fwd_lib
   \<and> drw_shader_dependencies_get 64 fwd_lib ''BLENDER_REQUIRE('' ''BLENDER_REQUIRE(B)void main(){}''
       = Some (Inr (1, []))
   \<and> take_bit (Suc 0) (1::64 word) = 1
   \<and> (\<exists>idx. list_all (\<lambda>i. i = 0) idx
        \<and> DRW_shader_library_create_shader_string 64 fwd_lib ''BLENDER_REQUIRE(B)void main(){}'' =
            Some (Inr (concat (map (\<lambda>i. the (libs fwd_lib ! i)) idx)
                         @ ''BLENDER_REQUIRE(B)void main(){}'', [])))
   \<and> DRW_shader_library_create_shader_string 64 fwd_lib ''BLENDER_REQUIRE(B)void main(){}'' =
        Some (Inr (''BLENDER_REQUIRE(A)float b;BLENDER_REQUIRE(B)void main(){}'', []))"
proof -
  note t = forward_reference_logged_and_not_pulled_in
    [where ?lib0.0 = DRW_shader_library_create and index = 0 and max_name = 64
       and lib_code = "''BLENDER_REQUIRE(A)float b;''" and lib_name = "''B''"
       and assert_abort = False and regs = fwd_regs and lib = fwd_lib
       and lg = "[DependencyNotFound ''A'']"
       and shader_code = "''BLENDER_REQUIRE(B)void main(){}''" and deps = 1 and ?lg2.0 = "[]"
       and k = 0]
  have a: "\<exists>deps0. DRW_shader_library_add_file False 64 DRW_shader_library_create
                   ''BLENDER_REQUIRE(A)float b;'' ''B'' =
            Some (Inr ((store_slot DRW_shader_library_create 0 ''BLENDER_REQUIRE(A)float b;'' ''B'')
                          \<lparr>libs_deps := (libs_deps DRW_shader_library_create)[0 := deps0]\<rparr>,
                       map DependencyNotFound [''A'']))
          \<and> {j. bit deps0 j} = {}"
    using t fwd_free fwd_fit by (simp only: fwd_missing_names fwd_targets)
  have b: "deps_not_above fwd_lib" using t fwd_built by blast
  have "\<exists>idx. (\<forall>i\<in>set idx. i \<le> 0)
        \<and> DRW_shader_library_create_shader_string 64 fwd_lib ''BLENDER_REQUIRE(B)void main(){}'' =
            Some (Inr (concat (map (\<lambda>i. the (libs fwd_lib ! i)) idx)
                         @ ''BLENDER_REQUIRE(B)void main(){}'', []))"
    using t fwd_built fwd_scan_B one_below_one by blast
  then have c: "\<exists>idx. list_all (\<lambda>i. i = 0) idx
        \<and> DRW_shader_library_create_shader_string 64 fwd_lib ''BLENDER_REQUIRE(B)void main(){}'' =
            Some (Inr (concat (map (\<lambda>i. the (libs fwd_lib ! i)) idx)
                         @ ''BLENDER_REQUIRE(B)void main(){}'', []))"
    by (simp add: list_all_iff)
  show ?thesis
    using a b c fwd_free fwd_fit fwd_lookup_fails fwd_built fwd_scan_B one_below_one fwd_expand_B
    by (intro conjI) (blast+)
qed

lemma silent_unregistered: "''common_math'' \<notin> set (map snd silent_regs)"
  by (simp add: silent_regs_def)

lemma silent_bit: "libs_deps silent_lib ! 1 = 1"
  by (simp add: silent_lib_def MAX_LIB_def)

text \<open>
  The claim as stated fails. A directive naming the unregistered \<open>common_math\<close> is
  resolved to the registered \<open>common\<close>: the registration logs nothing and sets the
  bit of \<open>common\<close>, whose text a later \<open>expand\<close> appends. And of a missing name of 70
  characters the registration logs the first 62 only.
\<close>

theorem forward_reference_counterexample:
  "add_files False 64 DRW_shader_library_create silent_regs = Some (Inr (silent_lib, []))
   \<and> ''common_math'' \<notin> set (map snd silent_regs)
   \<and> libs_deps silent_lib ! 1 = 1
   \<and> DRW_shader_library_create_shader_string 64 silent_lib ''BLENDER_REQUIRE(B)void main(){}'' =
       Some (Inr (''float c;BLENDER_REQUIRE(common_math)float b;BLENDER_REQUIRE(B)void main(){}'', []))
   \<and> map_option (map_sum id snd)
        (DRW_shader_library_add_file False 64 DRW_shader_library_create
           (''BLENDER_REQUIRE('' @ replicate 70 (CHR ''x'') @ '')'') ''L'')
       = Some (Inr [DependencyNotFound (replicate 62 (CHR ''x''))])"
  using silent_built silent_unregistered silent_bit silent_expand long_name_log
  by blast

section \<open>The entry points during an image render\<close>

lemmas api_defs = DRW_shader_from_world_def DRW_shader_from_material_def drw_deferred_shader_add_def
  set_status_def migrate_old_def create_context_def new_compiler_def BLI_addtail_def
  set_compiler_def GPU_material_compile_def USE_DEFERRED_COMPILATION_def Let_def

lemmas remove_defs = remove_visit_def remove_critical_def BLI_findptr_def BLI_remlink_def
  free_found_def drw_deferred_shader_free_def

lemmas example_defs = init_world_def interactive_env_def render_env_def

lemma remove_visit_keeps_status:
  "remove_visit mat c st = Some st' \<Longrightarrow>
     mat_status st' = mat_status st \<and> gpu_calls st' = gpu_calls st"
  by (auto simp: remove_defs set_compiler_def Let_def split: option.splits if_splits)

lemma remove_keeps_status:
  "DRW_deferred_shader_remove mat jobs st = Some st' \<Longrightarrow>
     mat_status st' = mat_status st \<and> gpu_calls st' = gpu_calls st"
proof (induction jobs arbitrary: st)
  case Nil
  then show ?case by simp
next
  case (Cons j js)
  show ?case
  proof (cases j)
    case None
    then show ?thesis using Cons by simp
  next
    case (Some c)
    then obtain st1 where v: "remove_visit mat c st = Some st1"
      and r: "DRW_deferred_shader_remove mat js st1 = Some st'"
      using Cons.prems by (auto split: option.splits)
    show ?thesis using Cons.IH [OF r] remove_visit_keeps_status [OF v] by simp
  qed
qed

lemma add_sync_status:
  assumes "is_image_render env"
    and "drw_deferred_shader_add env jobs mat deferred st = Some st'"
  shows "mat_status st' mat = compile_result env mat \<and> gpu_calls st' = gpu_calls st @ [mat]"
proof -
  obtain st1 where r: "DRW_deferred_shader_remove mat jobs st = Some st1"
    and e: "st' = GPU_material_compile env mat st1"
    using assms by (auto simp: drw_deferred_shader_add_def split: option.splits)
  show ?thesis using remove_keeps_status [OF r] e by (simp add: GPU_material_compile_def)
qed

lemma from_material_image_render_sync:
  assumes ir: "is_image_render env"
    and ok: "compile_result env mat \<in> {GPU_MAT_SUCCESS, GPU_MAT_FAILED}"
    and ret: "DRW_shader_from_material env jobs mat deferred st = Some st'"
  shows "mat_status st' mat \<in> {GPU_MAT_SUCCESS, GPU_MAT_FAILED}"
proof (cases "mat_status st mat")
  case GPU_MAT_FAILED
  then have "st' = st" using ret ir by (simp add: DRW_shader_from_material_def)
  then show ?thesis using GPU_MAT_FAILED by simp
next
  case GPU_MAT_SUCCESS
  then have "st' = st" using ret ir by (simp add: DRW_shader_from_material_def)
  then show ?thesis using GPU_MAT_SUCCESS by simp
next
  case GPU_MAT_QUEUED
  then have "drw_deferred_shader_add env jobs mat False st = Some st'"
    using ret ir by (simp add: DRW_shader_from_material_def)
  then show ?thesis using add_sync_status [OF ir] ok by auto
next
  case GPU_MAT_CREATED
  then obtain st1 where
    a: "drw_deferred_shader_add env jobs mat False (set_status mat GPU_MAT_QUEUED st) = Some st1"
    and b: "(if mat_status st1 mat = GPU_MAT_QUEUED
             then drw_deferred_shader_add env jobs mat False st1 else Some st1) = Some st'"
    using ret ir by (auto simp: DRW_shader_from_material_def split: option.splits)
  have s1: "mat_status st1 mat = compile_result env mat" using add_sync_status [OF ir a] by simp
  then have "st' = st1" using b ok by auto
  then show ?thesis using s1 ok by simp
qed

text \<open>
  C4, at the failing input. A world material is requested deferred in the interactive
  environment and is queued; the same request during an image render goes through
  \<^verbatim>\<open>DRW_shader_from_world\<close> without a compile: the state is unchanged, the status still
  \<open>GPU_MAT_QUEUED\<close>, no call of the GPU. \<^verbatim>\<open>DRW_shader_from_material\<close> in the same
  state compiles at once.
\<close>

theorem from_world_image_render_stays_queued:
  "\<exists>w1. DRW_shader_from_world interactive_env [] 7 True init_world = Some w1
     \<and> mat_status w1 7 = GPU_MAT_QUEUED \<and> job_customdata w1 = Some 11
     \<and> map_option queue (compilers w1 11) = Some [10]
     \<and> gpu_calls w1 = []
     \<and> is_image_render render_env
     \<and> DRW_shader_from_world render_env [Some 11] 7 True w1 = Some w1
     \<and> (\<exists>w2. DRW_shader_from_material render_env [Some 11] 7 True w1 = Some w2
           \<and> mat_status w2 7 = GPU_MAT_SUCCESS \<and> gpu_calls w2 = [7])"
  by (simp add: api_defs remove_defs example_defs)


section \<open>The steps of the threads, case by case\<close>

lemma set_compiler_proj [simp]:
  "compilers (set_compiler c cp st) = (compilers st)(c \<mapsto> cp)"
  "deferred_shaders (set_compiler c cp st) = deferred_shaders st"
  "mat_status (set_compiler c cp st) = mat_status st"
  "gpu_calls (set_compiler c cp st) = gpu_calls st"
  "gl_contexts (set_compiler c cp st) = gl_contexts st"
  "job_customdata (set_compiler c cp st) = job_customdata st"
  "next_ptr (set_compiler c cp st) = next_ptr st"
  "worker (set_compiler c cp st) = worker st"
  "remover (set_compiler c cp st) = remover st"
  by (simp_all add: set_compiler_def)

lemma set_worker_proj [simp]:
  "compilers (set_worker c pc st) = compilers st"
  "deferred_shaders (set_worker c pc st) = deferred_shaders st"
  "mat_status (set_worker c pc st) = mat_status st"
  "gpu_calls (set_worker c pc st) = gpu_calls st"
  "gl_contexts (set_worker c pc st) = gl_contexts st"
  "job_customdata (set_worker c pc st) = job_customdata st"
  "next_ptr (set_worker c pc st) = next_ptr st"
  "worker (set_worker c pc st) = (worker st)(c := pc)"
  "remover (set_worker c pc st) = remover st"
  by (simp_all add: set_worker_def)

lemma free_proj [simp]:
  "compilers (drw_deferred_shader_free d st) = compilers st"
  "deferred_shaders (drw_deferred_shader_free d st) = (deferred_shaders st)(d := None)"
  "mat_status (drw_deferred_shader_free d st) = mat_status st"
  "gpu_calls (drw_deferred_shader_free d st) = gpu_calls st"
  "gl_contexts (drw_deferred_shader_free d st) = gl_contexts st"
  "job_customdata (drw_deferred_shader_free d st) = job_customdata st"
  "next_ptr (drw_deferred_shader_free d st) = next_ptr st"
  "worker (drw_deferred_shader_free d st) = worker st"
  "remover (drw_deferred_shader_free d st) = remover st"
  by (simp_all add: drw_deferred_shader_free_def)

lemma free_found_proj [simp]:
  "compilers (free_found dsh st) = compilers st"
  "deferred_shaders (free_found dsh st) =
     (case dsh of None \<Rightarrow> deferred_shaders st | Some d \<Rightarrow> (deferred_shaders st)(d := None))"
  "mat_status (free_found dsh st) = mat_status st"
  "gpu_calls (free_found dsh st) = gpu_calls st"
  "gl_contexts (free_found dsh st) = gl_contexts st"
  "job_customdata (free_found dsh st) = job_customdata st"
  "next_ptr (free_found dsh st) = next_ptr st"
  "worker (free_found dsh st) = worker st"
  "remover (free_found dsh st) = remover st"
  by (simp_all add: free_found_def split: option.splits)

lemma compile_proj [simp]:
  "compilers (GPU_material_compile env m st) = compilers st"
  "deferred_shaders (GPU_material_compile env m st) = deferred_shaders st"
  "mat_status (GPU_material_compile env m st) = (mat_status st)(m := compile_result env m)"
  "gpu_calls (GPU_material_compile env m st) = gpu_calls st @ [m]"
  "gl_contexts (GPU_material_compile env m st) = gl_contexts st"
  "job_customdata (GPU_material_compile env m st) = job_customdata st"
  "next_ptr (GPU_material_compile env m st) = next_ptr st"
  "worker (GPU_material_compile env m st) = worker st"
  "remover (GPU_material_compile env m st) = remover st"
  by (simp_all add: GPU_material_compile_def)

lemma set_status_proj [simp]:
  "compilers (set_status m s st) = compilers st"
  "deferred_shaders (set_status m s st) = deferred_shaders st"
  "mat_status (set_status m s st) = (mat_status st)(m := s)"
  "gpu_calls (set_status m s st) = gpu_calls st"
  "gl_contexts (set_status m s st) = gl_contexts st"
  "job_customdata (set_status m s st) = job_customdata st"
  "next_ptr (set_status m s st) = next_ptr st"
  "worker (set_status m s st) = worker st"
  "remover (set_status m s st) = remover st"
  by (simp_all add: set_status_def)

lemma remove_critical_Some:
  assumes "remove_critical mat c st = Some (st1, dsh, wait)"
  obtains cp where "compilers st c = Some cp" and "list_lock cp = None"
    and "dsh = BLI_findptr (queue cp) (deferred_shaders st) mat"
    and "wait = (case mat_compiling cp of None \<Rightarrow> False
                 | Some d \<Rightarrow> deferred_shaders st d = Some mat)"
    and "st1 = set_compiler c
                 (cp\<lparr>queue := (case dsh of None \<Rightarrow> queue cp
                                 | Some d \<Rightarrow> BLI_remlink (queue cp) d)\<rparr>) st"
  using assms unfolding remove_critical_def
  by (auto simp: Let_def split: option.splits if_splits)

lemma remover_step_cases:
  assumes "remover_step st = Some st'"
  obtains
    (ret) mat where "remover st = R_Visit mat []" and "st' = st\<lparr>remover := R_Idle\<rparr>"
  | (skip) mat js where "remover st = R_Visit mat (None # js)"
      and "st' = st\<lparr>remover := R_Visit mat js\<rparr>"
  | (visit) mat c js cp dsh where "remover st = R_Visit mat (Some c # js)"
      and "compilers st c = Some cp" and "list_lock cp = None"
      and "dsh = BLI_findptr (queue cp) (deferred_shaders st) mat"
      and "\<not> (case mat_compiling cp of None \<Rightarrow> False
               | Some d \<Rightarrow> deferred_shaders st d = Some mat)"
      and "st' = (free_found dsh (set_compiler c
                    (cp\<lparr>queue := (case dsh of None \<Rightarrow> queue cp
                                    | Some d \<Rightarrow> BLI_remlink (queue cp) d)\<rparr>) st))
                 \<lparr>remover := R_Visit mat js\<rparr>"
  | (block) mat c js cp dsh where "remover st = R_Visit mat (Some c # js)"
      and "compilers st c = Some cp" and "list_lock cp = None"
      and "dsh = BLI_findptr (queue cp) (deferred_shaders st) mat"
      and "(case mat_compiling cp of None \<Rightarrow> False
            | Some d \<Rightarrow> deferred_shaders st d = Some mat)"
      and "st' = (set_compiler c
                    (cp\<lparr>queue := (case dsh of None \<Rightarrow> queue cp
                                    | Some d \<Rightarrow> BLI_remlink (queue cp) d),
                        list_lock := Some MainThread\<rparr>) st)
                 \<lparr>remover := R_Wait mat c dsh js\<rparr>"
  | (wake) mat c dsh js cp where "remover st = R_Wait mat c dsh js"
      and "compilers st c = Some cp" and "compilation_lock cp = None"
      and "st' = (free_found dsh (set_compiler c (cp\<lparr>list_lock := None\<rparr>) st))
                 \<lparr>remover := R_Visit mat js\<rparr>"
proof (cases "remover st")
  case R_Idle
  then show ?thesis using assms by (simp add: remover_step_def)
next
  case (R_Visit mat jobs)
  show ?thesis
  proof (cases jobs)
    case Nil
    then show ?thesis using assms R_Visit ret by (simp add: remover_step_def)
  next
    case (Cons j js)
    show ?thesis
    proof (cases j)
      case None
      then show ?thesis using assms R_Visit Cons skip by (simp add: remover_step_def)
    next
      case (Some c)
      then obtain st1 dsh wait where rc: "remove_critical mat c st = Some (st1, dsh, wait)"
        using assms R_Visit Cons by (auto simp: remover_step_def split: option.splits)
      from rc obtain cp where cp: "compilers st c = Some cp" "list_lock cp = None"
        "dsh = BLI_findptr (queue cp) (deferred_shaders st) mat"
        "wait = (case mat_compiling cp of None \<Rightarrow> False
                 | Some d \<Rightarrow> deferred_shaders st d = Some mat)"
        "st1 = set_compiler c
                 (cp\<lparr>queue := (case dsh of None \<Rightarrow> queue cp
                                 | Some d \<Rightarrow> BLI_remlink (queue cp) d)\<rparr>) st"
        by (rule remove_critical_Some)
      show ?thesis
      proof (cases wait)
        case True
        have "st' = (set_compiler c
                    (cp\<lparr>queue := (case dsh of None \<Rightarrow> queue cp
                                    | Some d \<Rightarrow> BLI_remlink (queue cp) d),
                        list_lock := Some MainThread\<rparr>) st)
                 \<lparr>remover := R_Wait mat c dsh js\<rparr>"
          using assms R_Visit Cons Some rc True cp(5)
          by (simp add: remover_step_def set_compiler_def)
        then show ?thesis using block R_Visit Cons Some cp True by blast
      next
        case False
        have "st' = (free_found dsh st1)\<lparr>remover := R_Visit mat js\<rparr>"
          using assms R_Visit Cons Some rc False by (simp add: remover_step_def)
        then show ?thesis using visit R_Visit Cons Some cp False by blast
      qed
    qed
  qed
next
  case (R_Wait mat c dsh js)
  then show ?thesis using assms wake
    by (auto simp: remover_step_def split: option.splits if_splits)
qed


lemma worker_step_cases:
  assumes "worker_step env c stop st = Some st'"
  obtains
    (start) cp where "compilers st c = Some cp" and "worker st c = W_NotStarted"
      and "st' = set_worker c W_Top st"
  | (stopped) cp where "compilers st c = Some cp" and "worker st c = W_Top"
      and "list_lock cp = None" and "stop" and "st' = set_worker c W_Exited st"
  | (drained) cp where "compilers st c = Some cp" and "worker st c = W_Top"
      and "list_lock cp = None" and "queue cp = []"
      and "st' = set_worker c W_Exited
                   (set_compiler c (cp\<lparr>mat_compiling := None, queue := []\<rparr>) st)"
  | (pop) cp where "compilers st c = Some cp" and "worker st c = W_Top"
      and "list_lock cp = None" and "queue cp \<noteq> []"
      and "st' = set_worker c W_WantMutex
                   (set_compiler c
                      (cp\<lparr>mat_compiling := Some (last (queue cp)), queue := butlast (queue cp),
                          shaders_done := shaders_done cp + 1,
                          list_lock := Some (WorkerThread c)\<rparr>) st)"
  | (mutex) cp where "compilers st c = Some cp" and "worker st c = W_WantMutex"
      and "compilation_lock cp = None"
      and "st' = set_worker c W_Compiling
                   (set_compiler c
                      (cp\<lparr>compilation_lock := Some (WorkerThread c), list_lock := None\<rparr>) st)"
  | (compile) cp d mat where "compilers st c = Some cp" and "worker st c = W_Compiling"
      and "mat_compiling cp = Some d" and "deferred_shaders st d = Some mat"
      and "st' = set_worker c W_Compiled (GPU_material_compile env mat st)"
  | (unlock) cp where "compilers st c = Some cp" and "worker st c = W_Compiled"
      and "st' = set_worker c W_After (set_compiler c (cp\<lparr>compilation_lock := None\<rparr>) st)"
  | (conclude) cp d mat where "compilers st c = Some cp" and "worker st c = W_After"
      and "list_lock cp = None" and "mat_compiling cp = Some d"
      and "deferred_shaders st d = Some mat" and "mat_status st mat = GPU_MAT_QUEUED"
      and "st' = set_worker c W_Top
                   (set_compiler c
                      (cp\<lparr>queue_conclude := BLI_addtail (queue_conclude cp) d,
                          mat_compiling := None\<rparr>) st)"
  | (discard) cp d mat where "compilers st c = Some cp" and "worker st c = W_After"
      and "list_lock cp = None" and "mat_compiling cp = Some d"
      and "deferred_shaders st d = Some mat" and "mat_status st mat \<noteq> GPU_MAT_QUEUED"
      and "st' = set_worker c W_Top
                   (set_compiler c (cp\<lparr>mat_compiling := None\<rparr>)
                      (drw_deferred_shader_free d st))"
proof -
  obtain cp where cp: "compilers st c = Some cp"
    using assms by (auto simp: worker_step_def split: option.splits)
  show ?thesis
  proof (cases "worker st c")
    case W_NotStarted
    then show ?thesis using assms cp start by (simp add: worker_step_def)
  next
    case W_Top
    show ?thesis
    proof (cases "stop")
      case True
      then show ?thesis using assms cp W_Top stopped
        by (auto simp: worker_step_def split: if_splits)
    next
      case False
      show ?thesis
      proof (cases "queue cp = []")
        case True
        then show ?thesis using assms cp W_Top False drained
          by (auto simp: worker_step_def BLI_poptail_def split: if_splits)
      next
        case ne: False
        then show ?thesis using assms cp W_Top False pop
          by (auto simp: worker_step_def BLI_poptail_def split: if_splits)
      qed
    qed
  next
    case W_WantMutex
    then show ?thesis using assms cp mutex
      by (auto simp: worker_step_def split: if_splits)
  next
    case W_Compiling
    then show ?thesis using assms cp compile
      by (auto simp: worker_step_def split: option.splits)
  next
    case W_Compiled
    then show ?thesis using assms cp unlock by (simp add: worker_step_def)
  next
    case W_After
    then obtain d mat where d: "mat_compiling cp = Some d" "deferred_shaders st d = Some mat"
      and l: "list_lock cp = None"
      using assms cp by (auto simp: worker_step_def split: option.splits if_splits)
    show ?thesis
    proof (cases "mat_status st mat = GPU_MAT_QUEUED")
      case True
      then show ?thesis using assms cp W_After d l conclude by (simp add: worker_step_def)
    next
      case False
      then show ?thesis using assms cp W_After d l discard by (simp add: worker_step_def)
    qed
  next
    case W_Exited
    then show ?thesis using assms cp by (simp add: worker_step_def)
  qed
qed


lemma add_sync:
  assumes "\<not> evil_C env \<or> is_image_render env \<or> \<not> deferred"
  shows "drw_deferred_shader_add env [] mat deferred st = Some (GPU_material_compile env mat st)"
  using assms by (auto simp: drw_deferred_shader_add_def)

lemma add_deferred_fresh:
  assumes "evil_C env" and "\<not> is_image_render env" and "job_customdata st = None"
  shows "\<exists>st' cp. drw_deferred_shader_add env jobs mat True st = Some st'
     \<and> deferred_shaders st' = (deferred_shaders st)(next_ptr st \<mapsto> mat)
     \<and> compilers st' = (compilers st)(Suc (next_ptr st) \<mapsto> cp)
     \<and> queue cp = [next_ptr st] \<and> queue_conclude cp = [] \<and> mat_compiling cp = None
     \<and> list_lock cp = None \<and> compilation_lock cp = None
     \<and> gl_context cp \<noteq> None
     \<and> (own_context cp \<longleftrightarrow> \<not> use_main_context_workaround env)
     \<and> (gl_context cp =
          (if use_main_context_workaround env then Some (DST_gl_context env)
           else Some (Suc (Suc (next_ptr st)))))
     \<and> gl_contexts st' =
          (if use_main_context_workaround env then gl_contexts st
           else gl_contexts st @ [Suc (Suc (next_ptr st))])
     \<and> mat_status st' = mat_status st \<and> gpu_calls st' = gpu_calls st
     \<and> job_customdata st' = Some (Suc (next_ptr st))
     \<and> Suc (Suc (next_ptr st)) \<le> next_ptr st' \<and> next_ptr st' \<le> next_ptr st + 4
     \<and> worker st' = (worker st)(Suc (next_ptr st) := W_NotStarted)
     \<and> remover st' = remover st"
  using assms
  by (auto simp add: drw_deferred_shader_add_def USE_DEFERRED_COMPILATION_def migrate_old_def
      create_context_def new_compiler_def BLI_addtail_def Let_def set_compiler_def)

lemma add_deferred_migrate:
  assumes "evil_C env" and "\<not> is_image_render env" and "job_customdata st = Some oc"
    and "compilers st oc = Some ocp" and "list_lock ocp = None" and "gl_context ocp \<noteq> None"
  shows "\<exists>st' cp. drw_deferred_shader_add env jobs mat True st = Some st'
     \<and> deferred_shaders st' = (deferred_shaders st)(next_ptr st \<mapsto> mat)
     \<and> compilers st' = (compilers st)
           (oc \<mapsto> ocp\<lparr>queue := [], own_context := False\<rparr>, Suc (next_ptr st) \<mapsto> cp)
     \<and> queue cp = queue ocp @ [next_ptr st] \<and> queue_conclude cp = [] \<and> mat_compiling cp = None
     \<and> list_lock cp = None \<and> compilation_lock cp = None
     \<and> gl_context cp = gl_context ocp
     \<and> (own_context cp \<longleftrightarrow> \<not> use_main_context_workaround env)
     \<and> gl_contexts st' = gl_contexts st
     \<and> mat_status st' = mat_status st \<and> gpu_calls st' = gpu_calls st
     \<and> job_customdata st' = Some (Suc (next_ptr st))
     \<and> Suc (Suc (next_ptr st)) \<le> next_ptr st' \<and> next_ptr st' \<le> next_ptr st + 4
     \<and> worker st' = (worker st)(Suc (next_ptr st) := W_NotStarted)
     \<and> remover st' = remover st"
  using assms
  by (auto simp add: drw_deferred_shader_add_def USE_DEFERRED_COMPILATION_def migrate_old_def
      create_context_def new_compiler_def BLI_addtail_def Let_def set_compiler_def)

lemma add_deferred_blocked:
  assumes "evil_C env" and "\<not> is_image_render env" and "job_customdata st = Some oc"
    and "compilers st oc = None \<or> (\<exists>ocp. compilers st oc = Some ocp \<and> list_lock ocp \<noteq> None)"
  shows "drw_deferred_shader_add env jobs mat True st = None"
  using assms
  by (auto simp add: drw_deferred_shader_add_def USE_DEFERRED_COMPILATION_def migrate_old_def Let_def)


lemma only_compiled_once:
  "only_compiled env mat st (GPU_material_compile env mat (set_status mat s st))"
  "only_compiled env mat st (GPU_material_compile env mat st)"
  "only_compiled env mat st
     (GPU_material_compile env mat (GPU_material_compile env mat (set_status mat s st)))"
  by (simp_all add: only_compiled_def)

lemma enqueue_cases:
  assumes "DRW_shader_from_material env [] mat True st = Some st'"
  obtains
    (same) "st' = st"
  | (sync) "only_compiled env mat st st'"
  | (enq) "evil_C env" and "\<not> is_image_render env" and "mat_status st mat = GPU_MAT_CREATED"
      and "drw_deferred_shader_add env [] mat True (set_status mat GPU_MAT_QUEUED st) = Some st'"
proof (cases "is_image_render env")
  case ir: True
  show ?thesis
  proof (cases "mat_status st mat")
    case GPU_MAT_CREATED
    then have "st' = GPU_material_compile env mat (set_status mat GPU_MAT_QUEUED st)
        \<or> st' = GPU_material_compile env mat
                  (GPU_material_compile env mat (set_status mat GPU_MAT_QUEUED st))"
      using assms ir by (auto simp: DRW_shader_from_material_def add_sync split: if_splits)
    then show ?thesis using sync only_compiled_once by blast
  next
    case GPU_MAT_QUEUED
    then have "st' = GPU_material_compile env mat st"
      using assms ir by (auto simp: DRW_shader_from_material_def add_sync)
    then show ?thesis using sync only_compiled_once by blast
  next
    case GPU_MAT_FAILED
    then show ?thesis using assms ir same by (auto simp: DRW_shader_from_material_def)
  next
    case GPU_MAT_SUCCESS
    then show ?thesis using assms ir same by (auto simp: DRW_shader_from_material_def)
  qed
next
  case nir: False
  show ?thesis
  proof (cases "mat_status st mat")
    case GPU_MAT_CREATED
    then have a: "drw_deferred_shader_add env [] mat True (set_status mat GPU_MAT_QUEUED st) = Some st'"
      using assms nir by (auto simp: DRW_shader_from_material_def split: option.splits)
    show ?thesis
    proof (cases "evil_C env")
      case True
      then show ?thesis using enq nir GPU_MAT_CREATED a by blast
    next
      case False
      then have "st' = GPU_material_compile env mat (set_status mat GPU_MAT_QUEUED st)"
        using a by (simp add: drw_deferred_shader_add_def)
      then show ?thesis using sync only_compiled_once by blast
    qed
  next
    case GPU_MAT_QUEUED
    then show ?thesis using assms nir same by (auto simp: DRW_shader_from_material_def)
  next
    case GPU_MAT_FAILED
    then show ?thesis using assms nir same by (auto simp: DRW_shader_from_material_def)
  next
    case GPU_MAT_SUCCESS
    then show ?thesis using assms nir same by (auto simp: DRW_shader_from_material_def)
  qed
qed

lemma fold_free_proj [simp]:
  "compilers (fold drw_deferred_shader_free ds st) = compilers st"
  "mat_status (fold drw_deferred_shader_free ds st) = mat_status st"
  "gpu_calls (fold drw_deferred_shader_free ds st) = gpu_calls st"
  "gl_contexts (fold drw_deferred_shader_free ds st) = gl_contexts st"
  "job_customdata (fold drw_deferred_shader_free ds st) = job_customdata st"
  "next_ptr (fold drw_deferred_shader_free ds st) = next_ptr st"
  "worker (fold drw_deferred_shader_free ds st) = worker st"
  "remover (fold drw_deferred_shader_free ds st) = remover st"
  by (induction ds arbitrary: st; simp)+

lemma fold_free_heap:
  "deferred_shaders (fold drw_deferred_shader_free ds st) d =
     (if d \<in> set ds then None else deferred_shaders st d)"
  by (induction ds arbitrary: st) auto

lemma conclude_loop_proj:
  "conclude_loop env ds st = Some st' \<Longrightarrow>
     compilers st' = compilers st \<and> gl_contexts st' = gl_contexts st
     \<and> job_customdata st' = job_customdata st \<and> next_ptr st' = next_ptr st
     \<and> worker st' = worker st \<and> remover st' = remover st
     \<and> (\<forall>d. deferred_shaders st' d = (if d \<in> set ds then None else deferred_shaders st d))
     \<and> (\<forall>m. mat_status st' m = mat_status st m \<or> mat_status st' m = compile_result env m)"
proof (induction ds arbitrary: st)
  case Nil
  then show ?case by simp
next
  case (Cons d ds)
  then obtain mat where m: "deferred_shaders st d = Some mat"
    and r: "conclude_loop env ds (drw_deferred_shader_free d (GPU_material_compile env mat st)) = Some st'"
    by (auto split: option.splits)
  show ?case using Cons.IH [OF r] by (auto split: if_splits)
qed

lemma dispose_proj [simp]:
  "compilers (dispose_context cp st) = compilers st"
  "deferred_shaders (dispose_context cp st) = deferred_shaders st"
  "mat_status (dispose_context cp st) = mat_status st"
  "gpu_calls (dispose_context cp st) = gpu_calls st"
  "job_customdata (dispose_context cp st) = job_customdata st"
  "next_ptr (dispose_context cp st) = next_ptr st"
  "worker (dispose_context cp st) = worker st"
  "remover (dispose_context cp st) = remover st"
  by (simp_all add: dispose_context_def split: option.splits)

lemma teardown_Some:
  assumes "drw_deferred_shader_compilation_free env c st = Some st'"
  obtains cp where "compilers st c = Some cp"
    and "compilers st' = (compilers st)(c := None)"
    and "\<forall>d. deferred_shaders st' d =
           (if d \<in> set (queue cp) \<union> set (queue_conclude cp) then None else deferred_shaders st d)"
    and "gl_contexts st' = gl_contexts (dispose_context cp st)"
    and "job_customdata st' = job_customdata st" and "next_ptr st' = next_ptr st"
    and "worker st' = worker st" and "remover st' = remover st"
    and "\<forall>m. mat_status st' m = mat_status st m \<or> mat_status st' m = compile_result env m"
proof -
  obtain cp st2 where cp: "compilers st c = Some cp"
    and cl: "conclude_loop env (rev (queue_conclude cp))
               (fold drw_deferred_shader_free (queue cp) st) = Some st2"
    and st': "st' = (dispose_context cp st2)\<lparr>compilers := fun_upd (compilers st2) c None\<rparr>"
    using assms by (auto simp: drw_deferred_shader_compilation_free_def split: option.splits)
  note p = conclude_loop_proj [OF cl]
  have "gl_contexts st' = gl_contexts (dispose_context cp st)"
    using p st' by (simp add: dispose_context_def split: option.splits)
  moreover have "\<forall>d. deferred_shaders st' d =
           (if d \<in> set (queue cp) \<union> set (queue_conclude cp) then None else deferred_shaders st d)"
    using p st' by (auto simp: fold_free_heap)
  ultimately show ?thesis using that [of cp] cp p st' by simp
qed


section \<open>Ownership of the rendering context\<close>

lemma ctx_inv_frame:
  assumes "ctx_inv st" and "job_customdata st' = job_customdata st"
    and "next_ptr st' = next_ptr st"
    and "\<forall>x cp'. compilers st' x = Some cp' \<longrightarrow>
           (\<exists>cp. compilers st x = Some cp \<and> gl_context cp' = gl_context cp
                 \<and> own_context cp' = own_context cp)"
  shows "ctx_inv st'"
  using assms unfolding ctx_inv_def by metis

lemma ctx_inv_init: "ctx_inv init_world"
  by (simp add: ctx_inv_def init_world_def)

lemma ctx_inv_enqueue:
  assumes inv: "ctx_inv st" and e: "DRW_shader_from_material env [] mat True st = Some st'"
  shows "ctx_inv st'"
  using e
proof (cases rule: enqueue_cases)
  case same
  then show ?thesis using inv by simp
next
  case sync
  then show ?thesis using inv by (simp add: only_compiled_def ctx_inv_def)
next
  case enq
  let ?st0 = "set_status mat GPU_MAT_QUEUED st"
  show ?thesis
  proof (cases "job_customdata st")
    case None
    then have "job_customdata ?st0 = None" by simp
    from add_deferred_fresh [OF enq(1,2) this, of "[]" mat]
    obtain cp where c: "compilers st' = (compilers st)(Suc (next_ptr st) \<mapsto> cp)"
      and g: "gl_context cp \<noteq> None" and j: "job_customdata st' = Some (Suc (next_ptr st))"
      and n: "Suc (Suc (next_ptr st)) \<le> next_ptr st'"
      using enq(4) by auto
    show ?thesis
      unfolding ctx_inv_def
    proof (intro allI impI)
      fix x cpx assume x: "compilers st' x = Some cpx"
      show "x < next_ptr st' \<and> gl_context cpx \<noteq> None
          \<and> (own_context cpx \<longrightarrow> job_customdata st' = Some x)"
      proof (cases "x = Suc (next_ptr st)")
        case True
        then show ?thesis using x c g j n by simp
      next
        case False
        then have "compilers st x = Some cpx" using x c by simp
        then show ?thesis using inv None n unfolding ctx_inv_def by fastforce
      qed
    qed
  next
    case (Some oc)
    then have j0: "job_customdata ?st0 = Some oc" by simp
    have "\<exists>ocp. compilers st oc = Some ocp \<and> list_lock ocp = None"
    proof (rule ccontr)
      assume "\<not> ?thesis"
      then have "compilers ?st0 oc = None \<or> (\<exists>ocp. compilers ?st0 oc = Some ocp \<and> list_lock ocp \<noteq> None)"
        by auto
      from add_deferred_blocked [OF enq(1,2) j0 this] show False using enq(4) by simp
    qed
    then obtain ocp where o: "compilers st oc = Some ocp" and l: "list_lock ocp = None" by blast
    have go: "gl_context ocp \<noteq> None" using inv o unfolding ctx_inv_def by blast
    have o0: "compilers ?st0 oc = Some ocp" using o by simp
    from add_deferred_migrate [OF enq(1,2) j0 o0 l go, of "[]" mat]
    obtain cp where c: "compilers st' = (compilers st)
           (oc \<mapsto> ocp\<lparr>queue := [], own_context := False\<rparr>, Suc (next_ptr st) \<mapsto> cp)"
      and g: "gl_context cp = gl_context ocp" and j: "job_customdata st' = Some (Suc (next_ptr st))"
      and n: "Suc (Suc (next_ptr st)) \<le> next_ptr st'"
      using enq(4) by auto
    show ?thesis
      unfolding ctx_inv_def
    proof (intro allI impI)
      fix x cpx assume x: "compilers st' x = Some cpx"
      show "x < next_ptr st' \<and> gl_context cpx \<noteq> None
          \<and> (own_context cpx \<longrightarrow> job_customdata st' = Some x)"
      proof (cases "x = Suc (next_ptr st)")
        case True
        then show ?thesis using x c g go j n by simp
      next
        case nx: False
        show ?thesis
        proof (cases "x = oc")
          case True
          have "oc < next_ptr st" using inv o unfolding ctx_inv_def by blast
          then show ?thesis using True x c nx go n by auto
        next
          case False
          then have "compilers st x = Some cpx" using x c nx by simp
          then show ?thesis using inv Some False n unfolding ctx_inv_def by fastforce
        qed
      qed
    qed
  qed
qed

lemma ctx_inv_remover:
  assumes inv: "ctx_inv st" and e: "remover_step st = Some st'"
  shows "ctx_inv st'"
  using e
proof (cases rule: remover_step_cases)
  case (ret mat)
  then show ?thesis using inv by (simp add: ctx_inv_def)
next
  case (skip mat js)
  then show ?thesis using inv by (simp add: ctx_inv_def)
next
  case (visit mat c js cp dsh)
  show ?thesis
    by (rule ctx_inv_frame [OF inv]) (use visit in \<open>auto split: if_splits\<close>)
next
  case (block mat c js cp dsh)
  show ?thesis
    by (rule ctx_inv_frame [OF inv]) (use block in \<open>auto split: if_splits\<close>)
next
  case (wake mat c dsh js cp)
  show ?thesis
    by (rule ctx_inv_frame [OF inv]) (use wake in \<open>auto split: if_splits\<close>)
qed

lemma ctx_inv_worker:
  assumes inv: "ctx_inv st" and e: "worker_step env c stop st = Some st'"
  shows "ctx_inv st'"
  using e
  by (cases rule: worker_step_cases)
     (rule ctx_inv_frame [OF inv], simp, simp, auto split: if_splits)+

lemma ctx_inv_step:
  assumes inv: "ctx_inv st" and e: "step env a st = Some st'"
  shows "ctx_inv st'"
proof (cases a)
  case (Enqueue mat)
  then show ?thesis using e inv ctx_inv_enqueue by (auto simp: step_def split: if_splits)
next
  case (Remove mat jobs)
  then show ?thesis using e inv by (auto simp: step_def ctx_inv_def split: if_splits)
next
  case RemoveStep
  then show ?thesis using e inv ctx_inv_remover by (simp add: step_def)
next
  case (Work c stop)
  then show ?thesis using e inv ctx_inv_worker by (simp add: step_def)
next
  case (Teardown c)
  then obtain st1 where t: "drw_deferred_shader_compilation_free env c st = Some st1"
    and s: "st' = (if job_customdata st1 = Some c then st1\<lparr>job_customdata := None\<rparr> else st1)"
    using e by (auto simp: step_def split: if_splits option.splits)
  from t obtain cp where c: "compilers st1 = (compilers st)(c := None)"
    and j: "job_customdata st1 = job_customdata st" and n: "next_ptr st1 = next_ptr st"
    by (rule teardown_Some)
  show ?thesis
    unfolding ctx_inv_def
  proof (intro allI impI)
    fix x cpx assume x: "compilers st' x = Some cpx"
    then have xc: "x \<noteq> c" and old: "compilers st x = Some cpx"
      using s c by (auto split: if_splits)
    then have "gl_context cpx \<noteq> None" and "own_context cpx \<longrightarrow> job_customdata st = Some x"
      and "x < next_ptr st"
      using inv unfolding ctx_inv_def by blast+
    then show "x < next_ptr st' \<and> gl_context cpx \<noteq> None
        \<and> (own_context cpx \<longrightarrow> job_customdata st' = Some x)"
      using s j n xc by auto
  qed
qed

lemma ctx_inv_exec:
  "ctx_inv st \<Longrightarrow> exec env acts st = Some st' \<Longrightarrow> ctx_inv st'"
proof (induction acts arbitrary: st)
  case Nil
  then show ?case by simp
next
  case (Cons a acts)
  then obtain st1 where s: "step env a st = Some st1" and r: "exec env acts st1 = Some st'"
    by (auto split: option.splits)
  show ?case using Cons.IH [OF ctx_inv_step [OF Cons.prems(1) s] r] .
qed


lemma from_material_deferred_created:
  assumes "\<not> is_image_render env" and "mat_status st mat = GPU_MAT_CREATED"
  shows "DRW_shader_from_material env jobs mat True st =
           drw_deferred_shader_add env jobs mat True (set_status mat GPU_MAT_QUEUED st)"
  using assms by (simp add: DRW_shader_from_material_def split: option.splits)

lemma teardown_contexts:
  assumes "step env (Teardown c) st = Some st'" and "compilers st c = Some cp"
  shows "gl_contexts st' = gl_contexts (dispose_context cp st)"
proof -
  obtain st1 where t: "drw_deferred_shader_compilation_free env c st = Some st1"
    and s: "st' = (if job_customdata st1 = Some c then st1\<lparr>job_customdata := None\<rparr> else st1)"
    using assms(1) by (auto simp: step_def split: if_splits option.splits)
  from t obtain cp' where "compilers st c = Some cp'"
    and "gl_contexts st1 = gl_contexts (dispose_context cp' st)"
    by (rule teardown_Some)
  then show ?thesis using s assms(2) by auto
qed

lemmas run_defs = step_def api_defs example_defs remove_defs

section \<open>Where the requests are\<close>

lemma req_inv_update:
  assumes inv: "req_inv st" and cp: "compilers st c = Some cp"
    and comps: "compilers st' = (compilers st)(c \<mapsto> cp')"
    and heap: "\<forall>d. deferred_shaders st' d = (if d \<in> F then None else deferred_shaders st d)"
    and nxt: "next_ptr st' = next_ptr st"
    and stat: "\<forall>m. mat_status st m \<noteq> GPU_MAT_CREATED \<longrightarrow> mat_status st' m \<noteq> GPU_MAT_CREATED"
    and wrk: "\<forall>x. x \<noteq> c \<longrightarrow> worker st' x = worker st x"
    and dist: "distinct (reqs cp')" and srt: "sorted_wrt (<) (queue cp')"
    and sets: "set (reqs cp') = set (reqs cp) - F" and F: "F \<subseteq> set (reqs cp)"
    and slot: "mat_compiling cp' \<noteq> None \<longrightarrow> holds_request (worker st' c)"
    and rem: "\<forall>m c dsh js. remover st' = R_Wait m c dsh js \<longrightarrow> dsh = None"
  shows "req_inv st'"
proof -
  from inv have
    i1: "\<And>x xp. compilers st x = Some xp \<Longrightarrow>
        x < next_ptr st \<and> distinct (reqs xp) \<and> sorted_wrt (<) (queue xp)
        \<and> (\<forall>d\<in>set (reqs xp). deferred_shaders st d \<noteq> None)
        \<and> (mat_compiling xp \<noteq> None \<longrightarrow> holds_request (worker st x))"
    and i2: "\<And>x y xp yp. compilers st x = Some xp \<Longrightarrow> compilers st y = Some yp \<Longrightarrow> x \<noteq> y \<Longrightarrow>
          set (reqs xp) \<inter> set (reqs yp) = {}"
    and i3: "\<And>d m. deferred_shaders st d = Some m \<Longrightarrow>
          d < next_ptr st \<and> mat_status st m \<noteq> GPU_MAT_CREATED
          \<and> (\<exists>x xp. compilers st x = Some xp \<and> d \<in> set (reqs xp))"
    and i4: "\<And>d d' m. deferred_shaders st d = Some m \<Longrightarrow> deferred_shaders st d' = Some m \<Longrightarrow> d = d'"
    unfolding req_inv_def by blast+
  have live: "deferred_shaders st' d = Some m \<Longrightarrow> deferred_shaders st d = Some m \<and> d \<notin> F" for d m
    using heap by (metis option.distinct(1))
  have p1: "x < next_ptr st' \<and> distinct (reqs xp) \<and> sorted_wrt (<) (queue xp)
        \<and> (\<forall>d\<in>set (reqs xp). deferred_shaders st' d \<noteq> None)
        \<and> (mat_compiling xp \<noteq> None \<longrightarrow> holds_request (worker st' x))"
    if x: "compilers st' x = Some xp" for x xp
    proof (cases "x = c")
      case True
      then have xp: "xp = cp'" using x comps by simp
      have "\<forall>d\<in>set (reqs cp'). deferred_shaders st' d \<noteq> None"
        using sets heap i1 [OF cp] by auto
      then show ?thesis using True xp i1 [OF cp] nxt dist srt slot by simp
    next
      case False
      then have old: "compilers st x = Some xp" using x comps by simp
      have "set (reqs xp) \<inter> F = {}" using i2 [OF old cp False] F by blast
      then have "\<forall>d\<in>set (reqs xp). deferred_shaders st' d \<noteq> None"
        using heap i1 [OF old] by auto
      then show ?thesis using i1 [OF old] nxt wrk False by simp
    qed
  have p2: "set (reqs xp) \<inter> set (reqs yp) = {}"
    if h: "compilers st' x = Some xp \<and> compilers st' y = Some yp \<and> x \<noteq> y" for x y xp yp
    proof (cases "x = c")
      case True
      then have "xp = cp'" and "compilers st y = Some yp" using h comps by auto
      then show ?thesis using i2 [OF cp \<open>compilers st y = Some yp\<close>] True h sets by blast
    next
      case xc: False
      then have ox: "compilers st x = Some xp" using h comps by simp
      show ?thesis
      proof (cases "y = c")
        case True
        then have "yp = cp'" using h comps by simp
        then show ?thesis using i2 [OF ox cp xc] sets by blast
      next
        case False
        then have "compilers st y = Some yp" using h comps by simp
        then show ?thesis using i2 [OF ox] h by blast
      qed
    qed
  have p3: "d < next_ptr st' \<and> mat_status st' m \<noteq> GPU_MAT_CREATED
          \<and> (\<exists>c cp. compilers st' c = Some cp \<and> d \<in> set (reqs cp))"
    if d: "deferred_shaders st' d = Some m" for d m
  proof -
    from d have od: "deferred_shaders st d = Some m" and nf: "d \<notin> F" using live by blast+
    from i3 [OF od] obtain x xp where x: "compilers st x = Some xp" "d \<in> set (reqs xp)"
      and b: "d < next_ptr st" "mat_status st m \<noteq> GPU_MAT_CREATED" by blast
    have "\<exists>x xp. compilers st' x = Some xp \<and> d \<in> set (reqs xp)"
    proof (cases "x = c")
      case True
      then have "d \<in> set (reqs cp')" using x cp sets nf by simp
      then show ?thesis using comps by auto
    next
      case False
      then have "compilers st' x = Some xp" using x comps by simp
      then show ?thesis using x by blast
    qed
    then show ?thesis using b nxt stat by simp
  qed
  have p4: "d = d'"
    if "deferred_shaders st' d = Some m \<and> deferred_shaders st' d' = Some m" for d d' m
    using that live i4 by blast
  show ?thesis
    unfolding req_inv_def using p1 p2 p3 p4 rem by blast
qed


lemma req_inv_slot_free:
  assumes "req_inv st" and "compilers st c = Some cp" and "\<not> holds_request (worker st c)"
  shows "mat_compiling cp = None"
  using assms unfolding req_inv_def by blast

lemma req_inv_comp:
  assumes "req_inv st" and "compilers st c = Some cp"
  shows "distinct (reqs cp)" and "sorted_wrt (<) (queue cp)"
  using assms unfolding req_inv_def by blast+

lemma req_inv_rem:
  assumes "req_inv st"
  shows "\<forall>m c dsh js. remover st = R_Wait m c dsh js \<longrightarrow> dsh = None"
  using assms unfolding req_inv_def by blast

lemma sorted_wrt_butlast: "sorted_wrt P xs \<Longrightarrow> sorted_wrt P (butlast xs)"
  by (induction xs) (auto dest: in_set_butlastD)

lemma req_inv_worker:
  assumes okc: "\<forall>m. compile_result env m \<noteq> GPU_MAT_CREATED"
    and inv: "req_inv st" and e: "worker_step env c stop st = Some st'"
  shows "req_inv st'"
  using e
proof (cases rule: worker_step_cases)
  case (start cp)
  have "mat_compiling cp = None"
    using req_inv_slot_free [OF inv start(1)] start(2) by (simp add: holds_request_def)
  then show ?thesis
    using start req_inv_comp [OF inv start(1)] req_inv_rem [OF inv]
    by (intro req_inv_update [OF inv start(1), where cp' = cp and F = "{}"]) auto
next
  case (stopped cp)
  have "mat_compiling cp = None"
    using req_inv_slot_free [OF inv stopped(1)] stopped(2) by (simp add: holds_request_def)
  then show ?thesis
    using stopped req_inv_comp [OF inv stopped(1)] req_inv_rem [OF inv]
    by (intro req_inv_update [OF inv stopped(1), where cp' = cp and F = "{}"]) auto
next
  case (drained cp)
  have "mat_compiling cp = None"
    using req_inv_slot_free [OF inv drained(1)] drained(2) by (simp add: holds_request_def)
  then show ?thesis
    using drained req_inv_comp [OF inv drained(1)] req_inv_rem [OF inv]
    by (intro req_inv_update [OF inv drained(1),
          where cp' = "cp\<lparr>mat_compiling := None, queue := []\<rparr>" and F = "{}"])
       (auto simp: reqs_def)
next
  case (pop cp)
  have mc: "mat_compiling cp = None"
    using req_inv_slot_free [OF inv pop(1)] pop(2) by (simp add: holds_request_def)
  have q: "queue cp = butlast (queue cp) @ [last (queue cp)]" using pop(4) by simp
  have d: "distinct (queue cp @ queue_conclude cp)"
    using req_inv_comp(1) [OF inv pop(1)] mc by (simp add: reqs_def)
  have d': "distinct (butlast (queue cp) @ queue_conclude cp @ [last (queue cp)])"
    using d by (subst (asm) q) auto
  have s': "set (butlast (queue cp) @ queue_conclude cp @ [last (queue cp)])
      = set (queue cp @ queue_conclude cp)"
    by (subst (3) q) auto
  show ?thesis
    using pop(5) mc d' s' req_inv_comp(2) [OF inv pop(1)] req_inv_rem [OF inv]
    by (intro req_inv_update [OF inv pop(1),
          where cp' = "cp\<lparr>mat_compiling := Some (last (queue cp)), queue := butlast (queue cp),
                          shaders_done := shaders_done cp + 1,
                          list_lock := Some (WorkerThread c)\<rparr>" and F = "{}"])
       (auto simp: reqs_def holds_request_def sorted_wrt_butlast)
next
  case (mutex cp)
  then show ?thesis
    using req_inv_comp [OF inv mutex(1)] req_inv_rem [OF inv]
    by (intro req_inv_update [OF inv mutex(1),
          where cp' = "cp\<lparr>compilation_lock := Some (WorkerThread c), list_lock := None\<rparr>"
            and F = "{}"])
       (auto simp: reqs_def holds_request_def)
next
  case (compile cp d mat)
  then show ?thesis
    using req_inv_comp [OF inv compile(1)] req_inv_rem [OF inv] okc
    by (intro req_inv_update [OF inv compile(1), where cp' = cp and F = "{}"])
       (auto simp: holds_request_def)
next
  case (unlock cp)
  then show ?thesis
    using req_inv_comp [OF inv unlock(1)] req_inv_rem [OF inv]
    by (intro req_inv_update [OF inv unlock(1),
          where cp' = "cp\<lparr>compilation_lock := None\<rparr>" and F = "{}"])
       (auto simp: reqs_def holds_request_def)
next
  case (conclude cp d mat)
  then show ?thesis
    using req_inv_comp [OF inv conclude(1)] req_inv_rem [OF inv]
    by (intro req_inv_update [OF inv conclude(1),
          where cp' = "cp\<lparr>queue_conclude := BLI_addtail (queue_conclude cp) d,
                          mat_compiling := None\<rparr>" and F = "{}"])
       (auto simp: reqs_def BLI_addtail_def)
next
  case (discard cp d mat)
  then show ?thesis
    using req_inv_comp [OF inv discard(1)] req_inv_rem [OF inv]
    by (intro req_inv_update [OF inv discard(1),
          where cp' = "cp\<lparr>mat_compiling := None\<rparr>" and F = "{d}"])
       (auto simp: reqs_def)
qed


lemma req_inv_same:
  assumes inv: "req_inv st"
    and "compilers st' = compilers st" and "deferred_shaders st' = deferred_shaders st"
    and "next_ptr st' = next_ptr st" and "worker st' = worker st"
    and "\<forall>m. mat_status st m \<noteq> GPU_MAT_CREATED \<longrightarrow> mat_status st' m \<noteq> GPU_MAT_CREATED"
    and "\<forall>m c dsh js. remover st' = R_Wait m c dsh js \<longrightarrow> dsh = None"
  shows "req_inv st'"
  using assms unfolding req_inv_def by simp

lemma findptr_Some:
  "BLI_findptr q heap mat = Some d \<Longrightarrow> d \<in> set q \<and> heap d = Some mat"
  unfolding BLI_findptr_def by (auto simp: find_Some_iff)

lemma sorted_wrt_remove1: "sorted_wrt P xs \<Longrightarrow> sorted_wrt P (remove1 x xs)"
  by (induction xs) (auto dest: notin_set_remove1)

lemma req_inv_slot:
  assumes "req_inv st" and "compilers st c = Some cp"
  shows "mat_compiling cp \<noteq> None \<longrightarrow> holds_request (worker st c)"
  using assms unfolding req_inv_def by blast

lemma req_inv_remover:
  assumes inv: "req_inv st" and e: "remover_step st = Some st'"
  shows "req_inv st'"
  using e
proof (cases rule: remover_step_cases)
  case (ret mat)
  then show ?thesis by (intro req_inv_same [OF inv]) auto
next
  case (skip mat js)
  then show ?thesis by (intro req_inv_same [OF inv]) auto
next
  case (visit mat c js cp dsh)
  note d = req_inv_comp [OF inv visit(2)] req_inv_slot [OF inv visit(2)]
  show ?thesis
  proof (cases dsh)
    case None
    then show ?thesis
      using visit d
      by (intro req_inv_update [OF inv visit(2), where cp' = "cp\<lparr>queue := queue cp\<rparr>"
            and F = "{}"])
         (auto simp: reqs_def)
  next
    case (Some x)
    then have x: "x \<in> set (queue cp)" using visit(4) findptr_Some by metis
    have dq: "distinct (queue cp)" using d(1) by (simp add: reqs_def)
    have nx: "x \<notin> set (queue_conclude cp)" "mat_compiling cp \<noteq> Some x"
      using d(1) x by (auto simp: reqs_def)
    show ?thesis
      using visit Some d x dq nx
      by (intro req_inv_update [OF inv visit(2),
            where cp' = "cp\<lparr>queue := BLI_remlink (queue cp) x\<rparr>" and F = "{x}"])
         (auto simp: reqs_def BLI_remlink_def sorted_wrt_remove1 split: option.splits)
  qed
next
  case (block mat c js cp dsh)
  note d = req_inv_comp [OF inv block(2)]
  obtain d' where d': "mat_compiling cp = Some d'" "deferred_shaders st d' = Some mat"
    using block(5) by (auto split: option.splits)
  have none: "dsh = None"
  proof (rule ccontr)
    assume "dsh \<noteq> None"
    then obtain x where x: "dsh = Some x" by auto
    then have xq: "x \<in> set (queue cp)" and xm: "deferred_shaders st x = Some mat"
      using block(4) findptr_Some by metis+
    have "x = d'" using inv xm d'(2) unfolding req_inv_def by blast
    then show False using d(1) xq d'(1) by (auto simp: reqs_def)
  qed
  have "holds_request (worker st c)" using inv block(2) d'(1) unfolding req_inv_def by blast
  then show ?thesis
    using block none d
    by (intro req_inv_update [OF inv block(2),
          where cp' = "cp\<lparr>queue := queue cp, list_lock := Some MainThread\<rparr>" and F = "{}"])
       (auto simp: reqs_def)
next
  case (wake mat c dsh js cp)
  note d = req_inv_comp [OF inv wake(2)]
  have none: "dsh = None" using req_inv_rem [OF inv] wake(1) by blast
  have "mat_compiling cp \<noteq> None \<longrightarrow> holds_request (worker st c)"
    using inv wake(2) unfolding req_inv_def by blast
  then show ?thesis
    using wake none d
    by (intro req_inv_update [OF inv wake(2),
          where cp' = "cp\<lparr>list_lock := None\<rparr>" and F = "{}"])
       (auto simp: reqs_def)
qed


lemma req_inv_facts:
  assumes "req_inv st"
  shows "\<And>x xp. compilers st x = Some xp \<Longrightarrow>
        x < next_ptr st \<and> distinct (reqs xp) \<and> sorted_wrt (<) (queue xp)
        \<and> (\<forall>d\<in>set (reqs xp). deferred_shaders st d \<noteq> None)
        \<and> (mat_compiling xp \<noteq> None \<longrightarrow> holds_request (worker st x))"
    and "\<And>x y xp yp. compilers st x = Some xp \<Longrightarrow> compilers st y = Some yp \<Longrightarrow> x \<noteq> y \<Longrightarrow>
          set (reqs xp) \<inter> set (reqs yp) = {}"
    and "\<And>d m. deferred_shaders st d = Some m \<Longrightarrow>
          d < next_ptr st \<and> mat_status st m \<noteq> GPU_MAT_CREATED
          \<and> (\<exists>x xp. compilers st x = Some xp \<and> d \<in> set (reqs xp))"
    and "\<And>d d' m. deferred_shaders st d = Some m \<Longrightarrow> deferred_shaders st d' = Some m \<Longrightarrow> d = d'"
  using assms unfolding req_inv_def by blast+

lemma linked_below:
  assumes "req_inv st" and "compilers st x = Some xp" and "d \<in> set (reqs xp)"
  shows "d < next_ptr st"
proof -
  obtain m where "deferred_shaders st d = Some m"
    using req_inv_facts(1) [OF assms(1,2)] assms(3) by auto
  then show ?thesis using req_inv_facts(3) [OF assms(1)] by blast
qed

lemma req_inv_add_fresh:
  assumes inv: "req_inv st" and created: "mat_status st mat = GPU_MAT_CREATED"
    and heap: "deferred_shaders st' = (deferred_shaders st)(next_ptr st \<mapsto> mat)"
    and comps: "compilers st' = (compilers st)(Suc (next_ptr st) \<mapsto> cp)"
    and cp: "queue cp = [next_ptr st]" "queue_conclude cp = []" "mat_compiling cp = None"
    and stat: "mat_status st' = (mat_status st)(mat := GPU_MAT_QUEUED)"
    and nxt: "Suc (Suc (next_ptr st)) \<le> next_ptr st'"
    and wrk: "worker st' = (worker st)(Suc (next_ptr st) := W_NotStarted)"
    and rem: "remover st' = remover st"
  shows "req_inv st'"
proof -
  note f = req_inv_facts [OF inv]
  let ?d = "next_ptr st" and ?c = "Suc (next_ptr st)"
  have fresh_c: "compilers st ?c = None"
    using f(1) by (metis Suc_n_not_le_n less_imp_le_nat not_Some_eq)
  have fresh_d: "deferred_shaders st ?d = None"
    using f(3) by (metis less_irrefl not_Some_eq)
  have rq: "reqs cp = [?d]" using cp by (simp add: reqs_def)
  have nomat: "deferred_shaders st d \<noteq> Some mat" for d
    using f(3) created by blast
  have p1: "x < next_ptr st' \<and> distinct (reqs xp) \<and> sorted_wrt (<) (queue xp)
        \<and> (\<forall>d\<in>set (reqs xp). deferred_shaders st' d \<noteq> None)
        \<and> (mat_compiling xp \<noteq> None \<longrightarrow> holds_request (worker st' x))"
    if x: "compilers st' x = Some xp" for x xp
  proof (cases "x = ?c")
    case True
    then have "xp = cp" using x comps by simp
    then show ?thesis using True rq cp heap nxt by simp
  next
    case False
    then have old: "compilers st x = Some xp" using x comps by simp
    have "\<forall>d\<in>set (reqs xp). deferred_shaders st' d \<noteq> None"
      using f(1) [OF old] heap by auto
    then show ?thesis using f(1) [OF old] nxt wrk False by simp
  qed
  have notin: "?d \<notin> set (reqs xp)" if "compilers st x = Some xp" for x xp
    using linked_below [OF inv that] by blast
  have p2: "set (reqs xp) \<inter> set (reqs yp) = {}"
    if h: "compilers st' x = Some xp \<and> compilers st' y = Some yp \<and> x \<noteq> y" for x y xp yp
  proof (cases "x = ?c")
    case True
    then have "xp = cp" and "compilers st y = Some yp" using h comps by auto
    then show ?thesis using rq notin by auto
  next
    case xc: False
    then have ox: "compilers st x = Some xp" using h comps by simp
    show ?thesis
    proof (cases "y = ?c")
      case True
      then have "yp = cp" using h comps by simp
      then show ?thesis using rq notin [OF ox] by auto
    next
      case False
      then have "compilers st y = Some yp" using h comps by simp
      then show ?thesis using f(2) [OF ox] h by blast
    qed
  qed
  have p3: "d < next_ptr st' \<and> mat_status st' m \<noteq> GPU_MAT_CREATED
          \<and> (\<exists>c cp. compilers st' c = Some cp \<and> d \<in> set (reqs cp))"
    if d: "deferred_shaders st' d = Some m" for d m
  proof (cases "d = ?d")
    case True
    then have "m = mat" using d heap by simp
    moreover have "compilers st' ?c = Some cp \<and> ?d \<in> set (reqs cp)" using comps rq by simp
    then have "\<exists>c cp. compilers st' c = Some cp \<and> ?d \<in> set (reqs cp)" by blast
    ultimately show ?thesis using True stat nxt by auto
  next
    case False
    then have od: "deferred_shaders st d = Some m" using d heap by simp
    from f(3) [OF od] obtain x xp where x: "compilers st x = Some xp" "d \<in> set (reqs xp)"
      and b: "d < next_ptr st" "mat_status st m \<noteq> GPU_MAT_CREATED" by blast
    have "x \<noteq> ?c" using x fresh_c by auto
    then have "compilers st' x = Some xp" using x comps by simp
    then show ?thesis using x b nxt stat by auto
  qed
  have p4: "d = d'"
    if h: "deferred_shaders st' d = Some m \<and> deferred_shaders st' d' = Some m" for d d' m
  proof (cases "d = ?d")
    case True
    then have "m = mat" using h heap by simp
    then have "d' = ?d" using h heap nomat by (auto split: if_splits)
    then show ?thesis using True by simp
  next
    case False
    then have od: "deferred_shaders st d = Some m" using h heap by simp
    then have "m \<noteq> mat" using nomat by blast
    then have "d' \<noteq> ?d" using h heap by auto
    then have "deferred_shaders st d' = Some m" using h heap by simp
    then show ?thesis using f(4) od by blast
  qed
  have p5: "\<forall>m c dsh js. remover st' = R_Wait m c dsh js \<longrightarrow> dsh = None"
    using req_inv_rem [OF inv] rem by simp
  show ?thesis
    unfolding req_inv_def using p1 p2 p3 p4 p5 by blast
qed


lemma req_inv_add_migrate:
  assumes inv: "req_inv st" and created: "mat_status st mat = GPU_MAT_CREATED"
    and old: "compilers st oc = Some ocp"
    and heap: "deferred_shaders st' = (deferred_shaders st)(next_ptr st \<mapsto> mat)"
    and comps: "compilers st' = (compilers st)(oc \<mapsto> ocp', Suc (next_ptr st) \<mapsto> cp)"
    and ocp': "queue ocp' = []" "queue_conclude ocp' = queue_conclude ocp"
      "mat_compiling ocp' = mat_compiling ocp"
    and cp: "queue cp = queue ocp @ [next_ptr st]" "queue_conclude cp = []"
      "mat_compiling cp = None"
    and stat: "mat_status st' = (mat_status st)(mat := GPU_MAT_QUEUED)"
    and nxt: "Suc (Suc (next_ptr st)) \<le> next_ptr st'"
    and wrk: "worker st' = (worker st)(Suc (next_ptr st) := W_NotStarted)"
    and rem: "remover st' = remover st"
  shows "req_inv st'"
proof -
  note f = req_inv_facts [OF inv]
  let ?d = "next_ptr st" and ?c = "Suc (next_ptr st)"
  have fresh_c: "compilers st ?c = None"
    using f(1) by (metis Suc_n_not_le_n less_imp_le_nat not_Some_eq)
  have occ: "oc \<noteq> ?c" using old fresh_c by auto
  have nomat: "deferred_shaders st d \<noteq> Some mat" for d
    using f(3) created by blast
  have notin: "?d \<notin> set (reqs xp)" if "compilers st x = Some xp" for x xp
    using linked_below [OF inv that] by blast
  have below: "d < ?d" if "d \<in> set (queue ocp)" for d
    using linked_below [OF inv old, of d] that by (simp add: reqs_def)
  have rq: "reqs cp = queue ocp @ [?d]" using cp by (simp add: reqs_def)
  have rqo: "reqs ocp = queue ocp @ reqs ocp'" using ocp' by (simp add: reqs_def)
  have dold: "distinct (queue ocp @ reqs ocp')" using f(1) [OF old] rqo by simp
  have c': "compilers st' ?c = Some cp" and o': "compilers st' oc = Some ocp'"
    using comps occ by simp_all
  have other: "compilers st' x = compilers st x" if "x \<noteq> ?c" "x \<noteq> oc" for x
    using comps that by simp
  have livekeep: "deferred_shaders st' d \<noteq> None" if "deferred_shaders st d \<noteq> None" for d
    using that heap by auto
  have p1: "x < next_ptr st' \<and> distinct (reqs xp) \<and> sorted_wrt (<) (queue xp)
        \<and> (\<forall>d\<in>set (reqs xp). deferred_shaders st' d \<noteq> None)
        \<and> (mat_compiling xp \<noteq> None \<longrightarrow> holds_request (worker st' x))"
    if x: "compilers st' x = Some xp" for x xp
  proof (cases "x = ?c")
    case True
    then have xp: "xp = cp" using x c' by simp
    have "distinct (queue ocp @ [?d])" using dold below by auto
    moreover have "sorted_wrt (<) (queue ocp @ [?d])"
      using f(1) [OF old] below by (simp add: sorted_wrt_append)
    moreover have "\<forall>d\<in>set (queue ocp @ [?d]). deferred_shaders st' d \<noteq> None"
      using f(1) [OF old] rqo livekeep heap by auto
    ultimately show ?thesis using True xp rq cp nxt by simp
  next
    case xc: False
    show ?thesis
    proof (cases "x = oc")
      case True
      then have xp: "xp = ocp'" using x o' by simp
      have "\<forall>d\<in>set (reqs ocp'). deferred_shaders st' d \<noteq> None"
        using f(1) [OF old] rqo livekeep by auto
      moreover have "mat_compiling ocp' \<noteq> None \<longrightarrow> holds_request (worker st' oc)"
        using f(1) [OF old] ocp' wrk occ by simp
      ultimately show ?thesis using True xp dold ocp' f(1) [OF old] nxt by simp
    next
      case False
      then have o: "compilers st x = Some xp" using x other xc by simp
      have "\<forall>d\<in>set (reqs xp). deferred_shaders st' d \<noteq> None"
        using f(1) [OF o] livekeep by auto
      then show ?thesis using f(1) [OF o] nxt wrk xc by simp
    qed
  qed
  have disj_c: "set (reqs cp) \<inter> set (reqs xp) = {}"
    if "compilers st' x = Some xp" "x \<noteq> ?c" for x xp
  proof (cases "x = oc")
    case True
    then have "xp = ocp'" using that o' by simp
    moreover have "?d \<notin> set (reqs ocp')" using notin [OF old] rqo by simp
    ultimately show ?thesis using rq dold by auto
  next
    case False
    then have o: "compilers st x = Some xp" using that other by simp
    have "set (queue ocp) \<inter> set (reqs xp) = {}" using f(2) [OF old o] False rqo by auto
    then show ?thesis using rq notin [OF o] by auto
  qed
  have disj_o: "set (reqs ocp') \<inter> set (reqs xp) = {}"
    if "compilers st' x = Some xp" "x \<noteq> ?c" "x \<noteq> oc" for x xp
  proof -
    have o: "compilers st x = Some xp" using that other by simp
    show ?thesis using f(2) [OF old o] that rqo by auto
  qed
  have p2: "set (reqs xp) \<inter> set (reqs yp) = {}"
    if h: "compilers st' x = Some xp \<and> compilers st' y = Some yp \<and> x \<noteq> y" for x y xp yp
  proof -
    consider "x = ?c" | "y = ?c" "x \<noteq> ?c" | "x = oc" "y \<noteq> ?c" | "y = oc" "x \<noteq> ?c" "x \<noteq> oc"
      | "x \<noteq> ?c" "x \<noteq> oc" "y \<noteq> ?c" "y \<noteq> oc" by blast
    then show ?thesis
    proof cases
      case 1
      then have "xp = cp" using h c' by simp
      then show ?thesis using disj_c [of y yp] h 1 by auto
    next
      case 2
      then have "yp = cp" using h c' by simp
      then show ?thesis using disj_c [of x xp] h 2 by auto
    next
      case 3
      then have "xp = ocp'" using h o' by simp
      then show ?thesis using disj_o [of y yp] h 3 by auto
    next
      case 4
      then have "yp = ocp'" using h o' by simp
      then show ?thesis using disj_o [of x xp] h 4 by auto
    next
      case 5
      then have "compilers st x = Some xp" "compilers st y = Some yp" using h other by simp_all
      then show ?thesis using f(2) h by blast
    qed
  qed
  have p3: "d < next_ptr st' \<and> mat_status st' m \<noteq> GPU_MAT_CREATED
          \<and> (\<exists>c cp. compilers st' c = Some cp \<and> d \<in> set (reqs cp))"
    if d: "deferred_shaders st' d = Some m" for d m
  proof (cases "d = ?d")
    case True
    then have "m = mat" using d heap by simp
    moreover have "\<exists>c cp. compilers st' c = Some cp \<and> ?d \<in> set (reqs cp)"
      using c' rq by (intro exI [of _ ?c] exI [of _ cp]) simp
    ultimately show ?thesis using True stat nxt by auto
  next
    case False
    then have od: "deferred_shaders st d = Some m" using d heap by simp
    from f(3) [OF od] obtain x xp where x: "compilers st x = Some xp" "d \<in> set (reqs xp)"
      and b: "d < next_ptr st" "mat_status st m \<noteq> GPU_MAT_CREATED" by blast
    have xc: "x \<noteq> ?c" using x fresh_c by auto
    have "\<exists>c cp. compilers st' c = Some cp \<and> d \<in> set (reqs cp)"
    proof (cases "x = oc")
      case True
      then have "d \<in> set (queue ocp) \<or> d \<in> set (reqs ocp')" using x old rqo by auto
      then show ?thesis using c' o' rq by (metis UnCI set_append)
    next
      case False
      then have "compilers st' x = Some xp" using x other xc by simp
      then show ?thesis using x by blast
    qed
    then show ?thesis using b nxt stat by auto
  qed
  have p4: "d = d'"
    if h: "deferred_shaders st' d = Some m \<and> deferred_shaders st' d' = Some m" for d d' m
  proof (cases "d = ?d")
    case True
    then have "m = mat" using h heap by simp
    then have "d' = ?d" using h heap nomat by (auto split: if_splits)
    then show ?thesis using True by simp
  next
    case False
    then have od: "deferred_shaders st d = Some m" using h heap by simp
    then have "m \<noteq> mat" using nomat by blast
    then have "d' \<noteq> ?d" using h heap by auto
    then have "deferred_shaders st d' = Some m" using h heap by simp
    then show ?thesis using f(4) od by blast
  qed
  have p5: "\<forall>m c dsh js. remover st' = R_Wait m c dsh js \<longrightarrow> dsh = None"
    using req_inv_rem [OF inv] rem by simp
  show ?thesis
    unfolding req_inv_def using p1 p2 p3 p4 p5 by blast
qed


lemma req_inv_enqueue:
  assumes okc: "\<forall>m. compile_result env m \<noteq> GPU_MAT_CREATED"
    and cinv: "ctx_inv st" and inv: "req_inv st"
    and e: "DRW_shader_from_material env [] mat True st = Some st'"
  shows "req_inv st'"
  using e
proof (cases rule: enqueue_cases)
  case same
  then show ?thesis using inv by simp
next
  case sync
  then show ?thesis
    using okc req_inv_rem [OF inv]
    by (intro req_inv_same [OF inv]) (auto simp: only_compiled_def)
next
  case enq
  let ?st0 = "set_status mat GPU_MAT_QUEUED st"
  show ?thesis
  proof (cases "job_customdata st")
    case None
    then have "job_customdata ?st0 = None" by simp
    from add_deferred_fresh [OF enq(1,2) this, of "[]" mat]
    obtain cp where "deferred_shaders st' = (deferred_shaders st)(next_ptr st \<mapsto> mat)"
      "compilers st' = (compilers st)(Suc (next_ptr st) \<mapsto> cp)"
      "queue cp = [next_ptr st]" "queue_conclude cp = []" "mat_compiling cp = None"
      "mat_status st' = (mat_status st)(mat := GPU_MAT_QUEUED)"
      "Suc (Suc (next_ptr st)) \<le> next_ptr st'"
      "worker st' = (worker st)(Suc (next_ptr st) := W_NotStarted)"
      "remover st' = remover st"
      using enq(4) by auto
    then show ?thesis by (rule req_inv_add_fresh [OF inv enq(3)])
  next
    case (Some oc)
    then have j0: "job_customdata ?st0 = Some oc" by simp
    have "\<exists>ocp. compilers st oc = Some ocp \<and> list_lock ocp = None"
    proof (rule ccontr)
      assume "\<not> ?thesis"
      then have "compilers ?st0 oc = None \<or> (\<exists>ocp. compilers ?st0 oc = Some ocp \<and> list_lock ocp \<noteq> None)"
        by auto
      from add_deferred_blocked [OF enq(1,2) j0 this] show False using enq(4) by simp
    qed
    then obtain ocp where o: "compilers st oc = Some ocp" and l: "list_lock ocp = None" by blast
    have go: "gl_context ocp \<noteq> None" using cinv o unfolding ctx_inv_def by blast
    have o0: "compilers ?st0 oc = Some ocp" using o by simp
    from add_deferred_migrate [OF enq(1,2) j0 o0 l go, of "[]" mat]
    obtain cp where "deferred_shaders st' = (deferred_shaders st)(next_ptr st \<mapsto> mat)"
      "compilers st' = (compilers st)
           (oc \<mapsto> ocp\<lparr>queue := [], own_context := False\<rparr>, Suc (next_ptr st) \<mapsto> cp)"
      "queue cp = queue ocp @ [next_ptr st]" "queue_conclude cp = []" "mat_compiling cp = None"
      "mat_status st' = (mat_status st)(mat := GPU_MAT_QUEUED)"
      "Suc (Suc (next_ptr st)) \<le> next_ptr st'"
      "worker st' = (worker st)(Suc (next_ptr st) := W_NotStarted)"
      "remover st' = remover st"
      using enq(4) by auto
    then show ?thesis
      by (intro req_inv_add_migrate [OF inv enq(3) o,
            where ocp' = "ocp\<lparr>queue := [], own_context := False\<rparr>" and cp = cp]) simp_all
  qed
qed

lemma req_inv_teardown:
  assumes okc: "\<forall>m. compile_result env m \<noteq> GPU_MAT_CREATED"
    and inv: "req_inv st" and idle: "\<not> holds_request (worker st c)"
    and t: "drw_deferred_shader_compilation_free env c st = Some st1"
    and s: "compilers st' = compilers st1" "deferred_shaders st' = deferred_shaders st1"
      "next_ptr st' = next_ptr st1" "worker st' = worker st1" "remover st' = remover st1"
      "mat_status st' = mat_status st1"
  shows "req_inv st'"
proof -
  note f = req_inv_facts [OF inv]
  from t obtain cp where cp: "compilers st c = Some cp"
    and comps: "compilers st1 = (compilers st)(c := None)"
    and heap: "\<forall>d. deferred_shaders st1 d =
           (if d \<in> set (queue cp) \<union> set (queue_conclude cp) then None else deferred_shaders st d)"
    and nxt: "next_ptr st1 = next_ptr st" and wrk: "worker st1 = worker st"
    and rem: "remover st1 = remover st"
    and stat: "\<forall>m. mat_status st1 m = mat_status st m \<or> mat_status st1 m = compile_result env m"
    by (rule teardown_Some)
  have mc: "mat_compiling cp = None" using req_inv_slot_free [OF inv cp idle] .
  then have rq: "set (reqs cp) = set (queue cp) \<union> set (queue_conclude cp)"
    by (simp add: reqs_def)
  have live: "deferred_shaders st' d = Some m \<Longrightarrow>
      deferred_shaders st d = Some m \<and> d \<notin> set (reqs cp)" for d m
    using heap s(2) rq by (metis option.distinct(1))
  have p1: "x < next_ptr st' \<and> distinct (reqs xp) \<and> sorted_wrt (<) (queue xp)
        \<and> (\<forall>d\<in>set (reqs xp). deferred_shaders st' d \<noteq> None)
        \<and> (mat_compiling xp \<noteq> None \<longrightarrow> holds_request (worker st' x))"
    if x: "compilers st' x = Some xp" for x xp
  proof -
    have xc: "x \<noteq> c" and o: "compilers st x = Some xp"
      using x s(1) comps by (auto split: if_splits)
    have "set (reqs xp) \<inter> set (reqs cp) = {}" using f(2) [OF o cp xc] .
    then have "\<forall>d\<in>set (reqs xp). deferred_shaders st' d \<noteq> None"
      using f(1) [OF o] heap s(2) rq by auto
    then show ?thesis using f(1) [OF o] s nxt wrk by simp
  qed
  have p2: "set (reqs xp) \<inter> set (reqs yp) = {}"
    if h: "compilers st' x = Some xp \<and> compilers st' y = Some yp \<and> x \<noteq> y" for x y xp yp
  proof -
    have "compilers st x = Some xp" "compilers st y = Some yp"
      using h s(1) comps by (auto split: if_splits)
    then show ?thesis using f(2) h by blast
  qed
  have p3: "d < next_ptr st' \<and> mat_status st' m \<noteq> GPU_MAT_CREATED
          \<and> (\<exists>c cp. compilers st' c = Some cp \<and> d \<in> set (reqs cp))"
    if d: "deferred_shaders st' d = Some m" for d m
  proof -
    have od: "deferred_shaders st d = Some m" and nf: "d \<notin> set (reqs cp)"
      using live [OF d] by blast+
    from f(3) [OF od] obtain x xp where x: "compilers st x = Some xp" "d \<in> set (reqs xp)"
      and b: "d < next_ptr st" "mat_status st m \<noteq> GPU_MAT_CREATED" by blast
    have "x \<noteq> c" using x cp nf by auto
    then have "compilers st' x = Some xp" using x s(1) comps by simp
    then have "\<exists>c cp. compilers st' c = Some cp \<and> d \<in> set (reqs cp)" using x by blast
    moreover have "mat_status st' m \<noteq> GPU_MAT_CREATED"
      using stat b okc s(6) by metis
    ultimately show ?thesis using b nxt s by simp
  qed
  have p4: "d = d'"
    if "deferred_shaders st' d = Some m \<and> deferred_shaders st' d' = Some m" for d d' m
    using that live f(4) by blast
  have p5: "\<forall>m c dsh js. remover st' = R_Wait m c dsh js \<longrightarrow> dsh = None"
    using req_inv_rem [OF inv] rem s by simp
  show ?thesis
    unfolding req_inv_def using p1 p2 p3 p4 p5 by blast
qed

lemma req_inv_step:
  assumes okc: "\<forall>m. compile_result env m \<noteq> GPU_MAT_CREATED"
    and cinv: "ctx_inv st" and inv: "req_inv st" and e: "step env a st = Some st'"
  shows "req_inv st'"
proof (cases a)
  case (Enqueue mat)
  then show ?thesis
    using e req_inv_enqueue [OF okc cinv inv] by (auto simp: step_def split: if_splits)
next
  case (Remove mat jobs)
  then have "st' = st\<lparr>remover := R_Visit mat jobs\<rparr>"
    using e by (auto simp: step_def split: if_splits)
  then show ?thesis by (intro req_inv_same [OF inv]) auto
next
  case RemoveStep
  then show ?thesis using e inv req_inv_remover by (simp add: step_def)
next
  case (Work c stop)
  then show ?thesis using e req_inv_worker [OF okc inv] by (simp add: step_def)
next
  case (Teardown c)
  then obtain st1 where t: "drw_deferred_shader_compilation_free env c st = Some st1"
    and s: "st' = (if job_customdata st1 = Some c then st1\<lparr>job_customdata := None\<rparr> else st1)"
    and w: "worker st c = W_NotStarted \<or> worker st c = W_Exited"
    using e by (auto simp: step_def split: if_splits option.splits)
  have idle: "\<not> holds_request (worker st c)" using w by (auto simp: holds_request_def)
  show ?thesis
    by (rule req_inv_teardown [OF okc inv idle t]) (use s in \<open>auto split: if_splits\<close>)
qed

lemma invs_exec:
  assumes okc: "\<forall>m. compile_result env m \<noteq> GPU_MAT_CREATED"
  shows "ctx_inv st \<Longrightarrow> req_inv st \<Longrightarrow> exec env acts st = Some st' \<Longrightarrow>
           ctx_inv st' \<and> req_inv st'"
proof (induction acts arbitrary: st)
  case Nil
  then show ?case by simp
next
  case (Cons a acts)
  then obtain st1 where s: "step env a st = Some st1" and r: "exec env acts st1 = Some st'"
    by (auto split: option.splits)
  show ?case
    using Cons.IH [OF ctx_inv_step [OF Cons.prems(1) s]
        req_inv_step [OF okc Cons.prems(1,2) s] r] .
qed

lemma req_inv_init: "req_inv init_world"
  by (simp add: req_inv_def init_world_def)


lemma places_count: "places cp d = count_list (reqs cp) d"
  by (simp add: places_def reqs_def split: option.splits)

lemma count_list_distinct:
  "distinct xs \<Longrightarrow> count_list xs d = (if d \<in> set xs then 1 else 0)"
  by (induction xs) auto

text \<open>
  C5. When a compile never leaves a material in status \<open>GPU_MAT_CREATED\<close>, then in
  every state reached by requests, worker steps, removals and teardowns each live
  request is in exactly one place of exactly one compiler (its queue, its conclude list
  or its "currently compiling" slot) and in no place of any other compiler; and a
  pointer that is not a live request is in no place.
\<close>

theorem request_in_exactly_one_place:
  assumes okc: "\<forall>m. compile_result env m \<noteq> GPU_MAT_CREATED"
    and run: "exec env acts init_world = Some st"
  shows "(\<forall>d m. deferred_shaders st d = Some m \<longrightarrow>
            (\<exists>c cp. compilers st c = Some cp \<and> places cp d = 1
               \<and> (\<forall>c' cp'. compilers st c' = Some cp' \<and> c' \<noteq> c \<longrightarrow> places cp' d = 0)))
     \<and> (\<forall>c cp d. compilers st c = Some cp \<and> deferred_shaders st d = None \<longrightarrow> places cp d = 0)"
proof -
  have inv: "req_inv st"
    using invs_exec [OF okc ctx_inv_init req_inv_init run] by blast
  note f = req_inv_facts [OF inv]
  have pl: "places cp d = (if d \<in> set (reqs cp) then 1 else 0)"
    if "compilers st c = Some cp" for c cp d
    using f(1) [OF that] by (simp add: places_count count_list_distinct)
  have A: "\<exists>c cp. compilers st c = Some cp \<and> places cp d = 1
               \<and> (\<forall>c' cp'. compilers st c' = Some cp' \<and> c' \<noteq> c \<longrightarrow> places cp' d = 0)"
    if d: "deferred_shaders st d = Some m" for d m
  proof -
    from f(3) [OF d] obtain c cp where c: "compilers st c = Some cp" "d \<in> set (reqs cp)"
      by blast
    have "places cp' d = 0" if "compilers st c' = Some cp' \<and> c' \<noteq> c" for c' cp'
    proof -
      have "set (reqs cp) \<inter> set (reqs cp') = {}" using f(2) [OF c(1)] that by blast
      then have "d \<notin> set (reqs cp')" using c(2) by blast
      moreover have "compilers st c' = Some cp'" using that by simp
      ultimately show ?thesis using pl [of c' cp' d] by simp
    qed
    moreover have "places cp d = 1" using pl [OF c(1)] c(2) by simp
    ultimately show ?thesis using c(1) by blast
  qed
  have B: "places cp d = 0"
    if "compilers st c = Some cp \<and> deferred_shaders st d = None" for c cp d
  proof -
    have c: "compilers st c = Some cp" using that by simp
    have "d \<notin> set (reqs cp)" using f(1) [OF c] that by blast
    then show ?thesis using pl [OF c, of d] by simp
  qed
  show ?thesis using A B by blast
qed

lemma compiling_state:
  "\<exists>st cp. exec interactive_env [Enqueue 7, Work 11 False, Work 11 False] init_world = Some st
     \<and> deferred_shaders st 10 = Some 7 \<and> compilers st 11 = Some cp
     \<and> queue cp = [] \<and> queue_conclude cp = [] \<and> mat_compiling cp = Some 10"
  by (simp add: run_defs worker_step_def set_worker_def BLI_poptail_def)

lemma interactive_ok: "\<forall>m. compile_result interactive_env m \<noteq> GPU_MAT_CREATED"
  by (simp add: interactive_env_def)

theorem request_in_exactly_one_place_witness:
  "(\<forall>m. compile_result interactive_env m \<noteq> GPU_MAT_CREATED)
   \<and> (\<exists>st c cp. exec interactive_env [Enqueue 7, Work 11 False, Work 11 False] init_world = Some st
        \<and> deferred_shaders st 10 = Some 7
        \<and> compilers st c = Some cp \<and> places cp 10 = 1)"
proof -
  obtain st where e: "exec interactive_env [Enqueue 7, Work 11 False, Work 11 False] init_world = Some st"
    and d: "deferred_shaders st 10 = Some 7"
    using compiling_state by blast
  from request_in_exactly_one_place [OF interactive_ok e] d
  obtain c cp where "compilers st c = Some cp" "places cp 10 = 1" by blast
  then show ?thesis using interactive_ok e d by blast
qed


section \<open>Teardown and the owner of the context\<close>

lemma conclude_loop_total:
  "distinct ds \<Longrightarrow> \<forall>d\<in>set ds. deferred_shaders st d \<noteq> None
     \<Longrightarrow> \<exists>st'. conclude_loop env ds st = Some st'"
proof (induction ds arbitrary: st)
  case Nil
  then show ?case by simp
next
  case (Cons d ds)
  then obtain mat where m: "deferred_shaders st d = Some mat" by auto
  let ?st1 = "drw_deferred_shader_free d (GPU_material_compile env mat st)"
  have "\<forall>x\<in>set ds. deferred_shaders ?st1 x \<noteq> None" using Cons.prems by auto
  moreover have "distinct ds" using Cons.prems by simp
  ultimately obtain st' where "conclude_loop env ds ?st1 = Some st'"
    using Cons.IH by blast
  then show ?case using m by simp
qed

lemma compilation_free_total:
  assumes inv: "req_inv st" and cp: "compilers st c = Some cp"
  shows "\<exists>st1. drw_deferred_shader_compilation_free env c st = Some st1"
proof -
  have f: "distinct (reqs cp)" "\<forall>d\<in>set (reqs cp). deferred_shaders st d \<noteq> None"
    using req_inv_facts(1) [OF inv cp] by blast+
  let ?st0 = "fold drw_deferred_shader_free (queue cp) st"
  have d: "distinct (rev (queue_conclude cp))" using f(1) by (simp add: reqs_def)
  have "set (queue cp) \<inter> set (queue_conclude cp) = {}" using f(1) by (auto simp: reqs_def)
  then have "\<forall>x\<in>set (rev (queue_conclude cp)). deferred_shaders ?st0 x \<noteq> None"
    using f(2) by (auto simp: fold_free_heap reqs_def)
  then obtain st2 where "conclude_loop env (rev (queue_conclude cp)) ?st0 = Some st2"
    using conclude_loop_total [OF d] by blast
  then show ?thesis using cp by (simp add: drw_deferred_shader_compilation_free_def)
qed

lemma teardown_returns:
  assumes inv: "req_inv st" and cp: "compilers st c = Some cp"
    and idle: "remover st = R_Idle" and w: "worker st c = W_NotStarted \<or> worker st c = W_Exited"
  shows "\<exists>st'. step env (Teardown c) st = Some st' \<and> compilers st' c = None"
proof -
  obtain st1 where t: "drw_deferred_shader_compilation_free env c st = Some st1"
    using compilation_free_total [OF inv cp] by blast
  from t obtain cp' where "compilers st1 = (compilers st)(c := None)"
    by (rule teardown_Some)
  then show ?thesis using t idle w by (auto simp: step_def)
qed


text \<open>
  C6. In every state reached from the initial one by requests, worker steps, removals
  and teardowns: at most one compiler has the ownership flag set; a deferred request
  that finds a previous compiler creates no context, gives the new compiler the
  context of the previous one and the merged queue, and clears the flag of the
  previous one; the teardown of a compiler disposes its context exactly when the
  compiler's flag is set; and the teardown of a compiler whose worker is not running
  returns and leaves the compiler freed (given that a compile never leaves a material
  in status \<open>GPU_MAT_CREATED\<close>, which keeps the requests of the lists live cells).
\<close>

theorem one_context_owner:
  assumes "exec env acts init_world = Some st"
  shows "(\<forall>c1 cp1 c2 cp2. compilers st c1 = Some cp1 \<and> own_context cp1
            \<and> compilers st c2 = Some cp2 \<and> own_context cp2 \<longrightarrow> c1 = c2)
     \<and> (\<forall>mat oc ocp. remover st = R_Idle \<and> evil_C env \<and> \<not> is_image_render env
            \<and> mat_status st mat = GPU_MAT_CREATED
            \<and> job_customdata st = Some oc \<and> compilers st oc = Some ocp \<and> list_lock ocp = None \<longrightarrow>
          (\<exists>st' cp. step env (Enqueue mat) st = Some st'
             \<and> gl_contexts st' = gl_contexts st
             \<and> job_customdata st' = Some (Suc (next_ptr st))
             \<and> compilers st' (Suc (next_ptr st)) = Some cp
             \<and> gl_context cp = gl_context ocp \<and> gl_context cp \<noteq> None
             \<and> (own_context cp \<longleftrightarrow> \<not> use_main_context_workaround env)
             \<and> queue cp = queue ocp @ [next_ptr st]
             \<and> compilers st' oc = Some (ocp\<lparr>queue := [], own_context := False\<rparr>)))
     \<and> (\<forall>c cp st'. step env (Teardown c) st = Some st' \<and> compilers st c = Some cp \<longrightarrow>
          gl_contexts st' =
            (if own_context cp then removeAll (the (gl_context cp)) (gl_contexts st)
             else gl_contexts st))
     \<and> (\<forall>c cp. (\<forall>m. compile_result env m \<noteq> GPU_MAT_CREATED) \<and> remover st = R_Idle
            \<and> (worker st c = W_NotStarted \<or> worker st c = W_Exited)
            \<and> compilers st c = Some cp \<longrightarrow>
          (\<exists>st'. step env (Teardown c) st = Some st' \<and> compilers st' c = None
             \<and> gl_contexts st' =
                 (if own_context cp then removeAll (the (gl_context cp)) (gl_contexts st)
                  else gl_contexts st)))"
proof -
  have inv: "ctx_inv st" using ctx_inv_exec [OF ctx_inv_init assms] .
  have ctx: "gl_contexts st' =
            (if own_context cp then removeAll (the (gl_context cp)) (gl_contexts st)
             else gl_contexts st)"
    if t: "step env (Teardown c) st = Some st'" and cp: "compilers st c = Some cp" for c cp st'
  proof -
    have "gl_contexts st' = gl_contexts (dispose_context cp st)"
      using teardown_contexts [OF t cp] .
    moreover have "gl_context cp \<noteq> None" using inv cp unfolding ctx_inv_def by blast
    ultimately show ?thesis by (auto simp: dispose_context_def)
  qed
  show ?thesis
  proof (intro conjI allI impI)
    fix c1 cp1 c2 cp2
    assume "compilers st c1 = Some cp1 \<and> own_context cp1
            \<and> compilers st c2 = Some cp2 \<and> own_context cp2"
    then have "job_customdata st = Some c1" and "job_customdata st = Some c2"
      using inv unfolding ctx_inv_def by blast+
    then show "c1 = c2" by simp
  next
    fix mat oc ocp
    assume h: "remover st = R_Idle \<and> evil_C env \<and> \<not> is_image_render env
            \<and> mat_status st mat = GPU_MAT_CREATED
            \<and> job_customdata st = Some oc \<and> compilers st oc = Some ocp \<and> list_lock ocp = None"
    let ?st0 = "set_status mat GPU_MAT_QUEUED st"
    have go: "gl_context ocp \<noteq> None" using inv h unfolding ctx_inv_def by blast
    have e: "step env (Enqueue mat) st = drw_deferred_shader_add env [] mat True ?st0"
      using h by (simp add: step_def from_material_deferred_created)
    have j0: "job_customdata ?st0 = Some oc" and o0: "compilers ?st0 oc = Some ocp"
      using h by simp_all
    have ev: "evil_C env" and ni: "\<not> is_image_render env" and l: "list_lock ocp = None"
      using h by simp_all
    have ne: "oc \<noteq> Suc (next_ptr st) \<Longrightarrow> ((compilers st)
           (oc \<mapsto> ocp\<lparr>queue := [], own_context := False\<rparr>, Suc (next_ptr st) \<mapsto> cp)) oc
           = Some (ocp\<lparr>queue := [], own_context := False\<rparr>)" for cp
      by simp
    from add_deferred_migrate [OF ev ni j0 o0 l go, of "[]" mat]
    obtain st' cp where a: "drw_deferred_shader_add env [] mat True ?st0 = Some st'"
      and c: "compilers st' = (compilers st)
           (oc \<mapsto> ocp\<lparr>queue := [], own_context := False\<rparr>, Suc (next_ptr st) \<mapsto> cp)"
      and q: "queue cp = queue ocp @ [next_ptr st]"
      and g: "gl_context cp = gl_context ocp"
      and own: "own_context cp \<longleftrightarrow> \<not> use_main_context_workaround env"
      and gc: "gl_contexts st' = gl_contexts st"
      and j: "job_customdata st' = Some (Suc (next_ptr st))"
      by auto
    show "\<exists>st' cp. step env (Enqueue mat) st = Some st'
             \<and> gl_contexts st' = gl_contexts st
             \<and> job_customdata st' = Some (Suc (next_ptr st))
             \<and> compilers st' (Suc (next_ptr st)) = Some cp
             \<and> gl_context cp = gl_context ocp \<and> gl_context cp \<noteq> None
             \<and> (own_context cp \<longleftrightarrow> \<not> use_main_context_workaround env)
             \<and> queue cp = queue ocp @ [next_ptr st]
             \<and> compilers st' oc = Some (ocp\<lparr>queue := [], own_context := False\<rparr>)"
    proof -
      have "oc < next_ptr st" using inv h unfolding ctx_inv_def by blast
      then have "oc \<noteq> Suc (next_ptr st)" by simp
      then have "compilers st' oc = Some (ocp\<lparr>queue := [], own_context := False\<rparr>)"
        and "compilers st' (Suc (next_ptr st)) = Some cp"
        using c by simp_all
      then show ?thesis using e a q g go own gc j by auto
    qed
  next
    fix c cp st'
    assume "step env (Teardown c) st = Some st' \<and> compilers st c = Some cp"
    then show "gl_contexts st' =
            (if own_context cp then removeAll (the (gl_context cp)) (gl_contexts st)
             else gl_contexts st)"
      using ctx by blast
  next
    fix c cp
    assume h: "(\<forall>m. compile_result env m \<noteq> GPU_MAT_CREATED) \<and> remover st = R_Idle
            \<and> (worker st c = W_NotStarted \<or> worker st c = W_Exited)
            \<and> compilers st c = Some cp"
    then have okc: "\<forall>m. compile_result env m \<noteq> GPU_MAT_CREATED" by blast
    have rinv: "req_inv st"
      using invs_exec [OF okc ctx_inv_init req_inv_init assms] by blast
    obtain st' where t: "step env (Teardown c) st = Some st'" and f: "compilers st' c = None"
      using teardown_returns [OF rinv, of c cp env] h by blast
    show "\<exists>st'. step env (Teardown c) st = Some st' \<and> compilers st' c = None
             \<and> gl_contexts st' =
                 (if own_context cp then removeAll (the (gl_context cp)) (gl_contexts st)
                  else gl_contexts st)"
      using t f ctx [OF t] h by blast
  qed
qed


lemma first_request:
  "\<exists>st ocp. exec interactive_env [Enqueue 7] init_world = Some st \<and> remover st = R_Idle
     \<and> mat_status st 8 = GPU_MAT_CREATED \<and> job_customdata st = Some 11
     \<and> compilers st 11 = Some ocp \<and> list_lock ocp = None \<and> own_context ocp
     \<and> next_ptr st = 14 \<and> gl_contexts st = [12]"
  by (simp add: run_defs)

lemma second_request:
  "\<exists>st cp1 cp2. exec interactive_env [Enqueue 7, Enqueue 8] init_world = Some st
     \<and> remover st = R_Idle \<and> worker st 11 = W_NotStarted \<and> worker st 15 = W_NotStarted
     \<and> compilers st 11 = Some cp1 \<and> \<not> own_context cp1 \<and> gl_context cp1 = Some 12
     \<and> compilers st 15 = Some cp2 \<and> own_context cp2 \<and> gl_context cp2 = Some 12
     \<and> gl_contexts st = [12]"
  by (simp add: run_defs)

lemma interactive_compiles: "\<forall>m. compile_result interactive_env m \<noteq> GPU_MAT_CREATED"
  by (simp add: interactive_env_def)

theorem one_context_owner_witness:
  "(\<exists>st ocp st' cp. exec interactive_env [Enqueue 7] init_world = Some st
     \<and> remover st = R_Idle \<and> evil_C interactive_env \<and> \<not> is_image_render interactive_env
     \<and> mat_status st 8 = GPU_MAT_CREATED \<and> job_customdata st = Some 11
     \<and> compilers st 11 = Some ocp \<and> list_lock ocp = None \<and> own_context ocp
     \<and> step interactive_env (Enqueue 8) st = Some st'
     \<and> gl_contexts st' = gl_contexts st
     \<and> compilers st' 15 = Some cp \<and> gl_context cp = gl_context ocp \<and> own_context cp
     \<and> compilers st' 11 = Some (ocp\<lparr>queue := [], own_context := False\<rparr>))
   \<and> (\<exists>st cp1 cp2 st1 st2. exec interactive_env [Enqueue 7, Enqueue 8] init_world = Some st
     \<and> (\<forall>m. compile_result interactive_env m \<noteq> GPU_MAT_CREATED) \<and> remover st = R_Idle
     \<and> worker st 11 = W_NotStarted \<and> worker st 15 = W_NotStarted
     \<and> compilers st 11 = Some cp1 \<and> \<not> own_context cp1
     \<and> compilers st 15 = Some cp2 \<and> own_context cp2 \<and> gl_contexts st = [12]
     \<and> step interactive_env (Teardown 11) st = Some st1 \<and> compilers st1 11 = None
     \<and> gl_contexts st1 = [12]
     \<and> step interactive_env (Teardown 15) st = Some st2 \<and> compilers st2 15 = None
     \<and> gl_contexts st2 = [])"
proof (rule conjI)
  obtain st ocp where e: "exec interactive_env [Enqueue 7] init_world = Some st"
    and f: "remover st = R_Idle" "mat_status st 8 = GPU_MAT_CREATED" "job_customdata st = Some 11"
      "compilers st 11 = Some ocp" "list_lock ocp = None" "own_context ocp" "next_ptr st = 14"
    using first_request by blast
  have env: "evil_C interactive_env" "\<not> is_image_render interactive_env"
    "\<not> use_main_context_workaround interactive_env"
    by (simp_all add: interactive_env_def)
  from one_context_owner [OF e] have
    "\<forall>mat oc ocp. remover st = R_Idle \<and> evil_C interactive_env \<and> \<not> is_image_render interactive_env
            \<and> mat_status st mat = GPU_MAT_CREATED
            \<and> job_customdata st = Some oc \<and> compilers st oc = Some ocp \<and> list_lock ocp = None \<longrightarrow>
          (\<exists>st' cp. step interactive_env (Enqueue mat) st = Some st'
             \<and> gl_contexts st' = gl_contexts st
             \<and> job_customdata st' = Some (Suc (next_ptr st))
             \<and> compilers st' (Suc (next_ptr st)) = Some cp
             \<and> gl_context cp = gl_context ocp \<and> gl_context cp \<noteq> None
             \<and> (own_context cp \<longleftrightarrow> \<not> use_main_context_workaround interactive_env)
             \<and> queue cp = queue ocp @ [next_ptr st]
             \<and> compilers st' oc = Some (ocp\<lparr>queue := [], own_context := False\<rparr>))"
    by blast
  then obtain st' cp where "step interactive_env (Enqueue 8) st = Some st'"
    "gl_contexts st' = gl_contexts st" "compilers st' (Suc (next_ptr st)) = Some cp"
    "gl_context cp = gl_context ocp" "own_context cp"
    "compilers st' 11 = Some (ocp\<lparr>queue := [], own_context := False\<rparr>)"
    using f env by blast
  then show "\<exists>st ocp st' cp. exec interactive_env [Enqueue 7] init_world = Some st
     \<and> remover st = R_Idle \<and> evil_C interactive_env \<and> \<not> is_image_render interactive_env
     \<and> mat_status st 8 = GPU_MAT_CREATED \<and> job_customdata st = Some 11
     \<and> compilers st 11 = Some ocp \<and> list_lock ocp = None \<and> own_context ocp
     \<and> step interactive_env (Enqueue 8) st = Some st'
     \<and> gl_contexts st' = gl_contexts st
     \<and> compilers st' 15 = Some cp \<and> gl_context cp = gl_context ocp \<and> own_context cp
     \<and> compilers st' 11 = Some (ocp\<lparr>queue := [], own_context := False\<rparr>)"
    using e f env by (intro exI [of _ st] exI [of _ ocp] exI [of _ st'] exI [of _ cp]) simp
next
  obtain st cp1 cp2 where e: "exec interactive_env [Enqueue 7, Enqueue 8] init_world = Some st"
    and f: "remover st = R_Idle" "worker st 11 = W_NotStarted" "worker st 15 = W_NotStarted"
      "compilers st 11 = Some cp1" "\<not> own_context cp1"
      "compilers st 15 = Some cp2" "own_context cp2" "gl_context cp2 = Some 12"
      "gl_contexts st = [12]"
    using second_request by blast
  note ok = interactive_compiles
  from one_context_owner [OF e] have td:
    "\<forall>c cp. (\<forall>m. compile_result interactive_env m \<noteq> GPU_MAT_CREATED) \<and> remover st = R_Idle
            \<and> (worker st c = W_NotStarted \<or> worker st c = W_Exited)
            \<and> compilers st c = Some cp \<longrightarrow>
          (\<exists>st'. step interactive_env (Teardown c) st = Some st' \<and> compilers st' c = None
             \<and> gl_contexts st' =
                 (if own_context cp then removeAll (the (gl_context cp)) (gl_contexts st)
                  else gl_contexts st))"
    by blast
  obtain st1 where t1: "step interactive_env (Teardown 11) st = Some st1"
    "compilers st1 11 = None" "gl_contexts st1 = [12]"
    using td [rule_format, of 11 cp1] ok f by auto
  obtain st2 where t2: "step interactive_env (Teardown 15) st = Some st2"
    "compilers st2 15 = None" "gl_contexts st2 = []"
    using td [rule_format, of 15 cp2] ok f by auto
  show "\<exists>st cp1 cp2 st1 st2. exec interactive_env [Enqueue 7, Enqueue 8] init_world = Some st
     \<and> (\<forall>m. compile_result interactive_env m \<noteq> GPU_MAT_CREATED) \<and> remover st = R_Idle
     \<and> worker st 11 = W_NotStarted \<and> worker st 15 = W_NotStarted
     \<and> compilers st 11 = Some cp1 \<and> \<not> own_context cp1
     \<and> compilers st 15 = Some cp2 \<and> own_context cp2 \<and> gl_contexts st = [12]
     \<and> step interactive_env (Teardown 11) st = Some st1 \<and> compilers st1 11 = None
     \<and> gl_contexts st1 = [12]
     \<and> step interactive_env (Teardown 15) st = Some st2 \<and> compilers st2 15 = None
     \<and> gl_contexts st2 = []"
    using e ok f t1 t2
    by (intro exI [of _ st] exI [of _ cp1] exI [of _ cp2] exI [of _ st1] exI [of _ st2]) simp
qed

section \<open>The order of the queue\<close>

lemma queue_inv_update:
  assumes "queue_inv st" and "compilers st c = Some cp"
    and "compilers st' = (compilers st)(c \<mapsto> cp')" and "next_ptr st' = next_ptr st"
    and "sorted_wrt (<) (queue cp')" and "set (queue cp') \<subseteq> set (queue cp)"
  shows "queue_inv st'"
  using assms unfolding queue_inv_def by (auto split: if_splits)

lemma queue_inv_same:
  assumes "queue_inv st" and "compilers st' = compilers st" and "next_ptr st' = next_ptr st"
  shows "queue_inv st'"
  using assms unfolding queue_inv_def by simp

lemma queue_inv_comp:
  assumes "queue_inv st" and "compilers st c = Some cp"
  shows "sorted_wrt (<) (queue cp)" and "\<forall>d\<in>set (queue cp). d < next_ptr st"
  using assms unfolding queue_inv_def by blast+

lemma queue_inv_worker:
  assumes inv: "queue_inv st" and e: "worker_step env c stop st = Some st'"
  shows "queue_inv st'"
  using e
proof (cases rule: worker_step_cases)
  case (start cp)
  then show ?thesis by (intro queue_inv_same [OF inv]) auto
next
  case (stopped cp)
  then show ?thesis by (intro queue_inv_same [OF inv]) auto
next
  case (drained cp)
  then show ?thesis
    by (intro queue_inv_update [OF inv drained(1),
          where cp' = "cp\<lparr>mat_compiling := None, queue := []\<rparr>"]) auto
next
  case (pop cp)
  then show ?thesis
    using queue_inv_comp(1) [OF inv pop(1)]
    by (intro queue_inv_update [OF inv pop(1),
          where cp' = "cp\<lparr>mat_compiling := Some (last (queue cp)), queue := butlast (queue cp),
                          shaders_done := shaders_done cp + 1,
                          list_lock := Some (WorkerThread c)\<rparr>"])
       (auto simp: sorted_wrt_butlast dest: in_set_butlastD)
next
  case (mutex cp)
  then show ?thesis
    using queue_inv_comp(1) [OF inv mutex(1)]
    by (intro queue_inv_update [OF inv mutex(1),
          where cp' = "cp\<lparr>compilation_lock := Some (WorkerThread c), list_lock := None\<rparr>"])
       auto
next
  case (compile cp d mat)
  then show ?thesis by (intro queue_inv_same [OF inv]) auto
next
  case (unlock cp)
  then show ?thesis
    using queue_inv_comp(1) [OF inv unlock(1)]
    by (intro queue_inv_update [OF inv unlock(1), where cp' = "cp\<lparr>compilation_lock := None\<rparr>"])
       auto
next
  case (conclude cp d mat)
  then show ?thesis
    using queue_inv_comp(1) [OF inv conclude(1)]
    by (intro queue_inv_update [OF inv conclude(1),
          where cp' = "cp\<lparr>queue_conclude := BLI_addtail (queue_conclude cp) d,
                          mat_compiling := None\<rparr>"]) auto
next
  case (discard cp d mat)
  then show ?thesis
    using queue_inv_comp(1) [OF inv discard(1)]
    by (intro queue_inv_update [OF inv discard(1), where cp' = "cp\<lparr>mat_compiling := None\<rparr>"])
       auto
qed

lemma unlinked_queue:
  "sorted_wrt (<) q \<Longrightarrow>
     sorted_wrt (<) (case dsh of None \<Rightarrow> q | Some d \<Rightarrow> BLI_remlink q d)
     \<and> set (case dsh of None \<Rightarrow> q | Some d \<Rightarrow> BLI_remlink q d) \<subseteq> set q"
  using set_remove1_subset [of _ q]
  by (auto simp: BLI_remlink_def sorted_wrt_remove1 split: option.splits)

lemma queue_inv_remover:
  assumes inv: "queue_inv st" and e: "remover_step st = Some st'"
  shows "queue_inv st'"
  using e
proof (cases rule: remover_step_cases)
  case (ret mat)
  then show ?thesis by (intro queue_inv_same [OF inv]) auto
next
  case (skip mat js)
  then show ?thesis by (intro queue_inv_same [OF inv]) auto
next
  case (visit mat c js cp dsh)
  then show ?thesis
    using unlinked_queue [OF queue_inv_comp(1) [OF inv visit(2)], of dsh]
    by (intro queue_inv_update [OF inv visit(2),
          where cp' = "cp\<lparr>queue := (case dsh of None \<Rightarrow> queue cp
                                    | Some d \<Rightarrow> BLI_remlink (queue cp) d)\<rparr>"]) auto
next
  case (block mat c js cp dsh)
  then show ?thesis
    using unlinked_queue [OF queue_inv_comp(1) [OF inv block(2)], of dsh]
    by (intro queue_inv_update [OF inv block(2),
          where cp' = "cp\<lparr>queue := (case dsh of None \<Rightarrow> queue cp
                                    | Some d \<Rightarrow> BLI_remlink (queue cp) d),
                        list_lock := Some MainThread\<rparr>"]) auto
next
  case (wake mat c dsh js cp)
  then show ?thesis
    using queue_inv_comp(1) [OF inv wake(2)]
    by (intro queue_inv_update [OF inv wake(2), where cp' = "cp\<lparr>list_lock := None\<rparr>"]) auto
qed

lemma queue_inv_enqueue:
  assumes cinv: "ctx_inv st" and inv: "queue_inv st"
    and e: "DRW_shader_from_material env [] mat True st = Some st'"
  shows "queue_inv st'"
  using e
proof (cases rule: enqueue_cases)
  case same
  then show ?thesis using inv by simp
next
  case sync
  then show ?thesis by (intro queue_inv_same [OF inv]) (auto simp: only_compiled_def)
next
  case enq
  let ?st0 = "set_status mat GPU_MAT_QUEUED st"
  show ?thesis
  proof (cases "job_customdata st")
    case None
    then have "job_customdata ?st0 = None" by simp
    from add_deferred_fresh [OF enq(1,2) this, of "[]" mat]
    obtain cp where "compilers st' = (compilers st)(Suc (next_ptr st) \<mapsto> cp)"
      "queue cp = [next_ptr st]" "Suc (Suc (next_ptr st)) \<le> next_ptr st'"
      using enq(4) by auto
    then show ?thesis using inv unfolding queue_inv_def
      by (fastforce split: if_splits)
  next
    case (Some oc)
    then have j0: "job_customdata ?st0 = Some oc" by simp
    have "\<exists>ocp. compilers st oc = Some ocp \<and> list_lock ocp = None"
    proof (rule ccontr)
      assume "\<not> ?thesis"
      then have "compilers ?st0 oc = None \<or> (\<exists>ocp. compilers ?st0 oc = Some ocp \<and> list_lock ocp \<noteq> None)"
        by auto
      from add_deferred_blocked [OF enq(1,2) j0 this] show False using enq(4) by simp
    qed
    then obtain ocp where o: "compilers st oc = Some ocp" and l: "list_lock ocp = None" by blast
    have go: "gl_context ocp \<noteq> None" using cinv o unfolding ctx_inv_def by blast
    have o0: "compilers ?st0 oc = Some ocp" using o by simp
    from add_deferred_migrate [OF enq(1,2) j0 o0 l go, of "[]" mat]
    obtain cp where c: "compilers st' = (compilers st)
           (oc \<mapsto> ocp\<lparr>queue := [], own_context := False\<rparr>, Suc (next_ptr st) \<mapsto> cp)"
      and q: "queue cp = queue ocp @ [next_ptr st]"
      and n: "Suc (Suc (next_ptr st)) \<le> next_ptr st'"
      using enq(4) by auto
    have so: "sorted_wrt (<) (queue ocp @ [next_ptr st])"
      using queue_inv_comp [OF inv o] by (simp add: sorted_wrt_append)
    have bo: "\<forall>d\<in>set (queue ocp @ [next_ptr st]). d < next_ptr st'"
      using queue_inv_comp(2) [OF inv o] n by auto
    show ?thesis
      unfolding queue_inv_def
    proof (intro allI impI)
      fix x xp assume x: "compilers st' x = Some xp"
      consider "x = Suc (next_ptr st)" | "x \<noteq> Suc (next_ptr st)" "x = oc"
        | "x \<noteq> Suc (next_ptr st)" "x \<noteq> oc" by blast
      then show "sorted_wrt (<) (queue xp) \<and> (\<forall>d\<in>set (queue xp). d < next_ptr st')"
      proof cases
        case 1
        then have "xp = cp" using x c by simp
        then show ?thesis using so bo q by simp
      next
        case 2
        then have "xp = ocp\<lparr>queue := [], own_context := False\<rparr>" using x c by simp
        then show ?thesis by simp
      next
        case 3
        then have "compilers st x = Some xp" using x c by simp
        then show ?thesis using queue_inv_comp [OF inv] n by fastforce
      qed
    qed
  qed
qed

lemma queue_inv_step:
  assumes cinv: "ctx_inv st" and inv: "queue_inv st" and e: "step env a st = Some st'"
  shows "queue_inv st'"
proof (cases a)
  case (Enqueue mat)
  then show ?thesis
    using e queue_inv_enqueue [OF cinv inv] by (auto simp: step_def split: if_splits)
next
  case (Remove mat jobs)
  then have "st' = st\<lparr>remover := R_Visit mat jobs\<rparr>"
    using e by (auto simp: step_def split: if_splits)
  then show ?thesis by (intro queue_inv_same [OF inv]) auto
next
  case RemoveStep
  then show ?thesis using e inv queue_inv_remover by (simp add: step_def)
next
  case (Work c stop)
  then show ?thesis using e queue_inv_worker [OF inv] by (simp add: step_def)
next
  case (Teardown c)
  then obtain st1 where t: "drw_deferred_shader_compilation_free env c st = Some st1"
    and s: "st' = (if job_customdata st1 = Some c then st1\<lparr>job_customdata := None\<rparr> else st1)"
    using e by (auto simp: step_def split: if_splits option.splits)
  from t obtain cp where "compilers st1 = (compilers st)(c := None)" "next_ptr st1 = next_ptr st"
    by (rule teardown_Some)
  then show ?thesis using inv s unfolding queue_inv_def by (auto split: if_splits)
qed

lemma queue_inv_exec:
  "ctx_inv st \<Longrightarrow> queue_inv st \<Longrightarrow> exec env acts st = Some st' \<Longrightarrow> queue_inv st'"
proof (induction acts arbitrary: st)
  case Nil
  then show ?case by simp
next
  case (Cons a acts)
  then obtain st1 where s: "step env a st = Some st1" and r: "exec env acts st1 = Some st'"
    by (auto split: option.splits)
  show ?case
    using Cons.IH [OF ctx_inv_step [OF Cons.prems(1) s] queue_inv_step [OF Cons.prems(1,2) s] r] .
qed

lemma queue_inv_init: "queue_inv init_world"
  by (simp add: queue_inv_def init_world_def)


lemma sorted_last_Max:
  assumes "sorted_wrt (<) (xs :: nat list)" and "xs \<noteq> []"
  shows "last xs = Max (set xs)" and "\<forall>d\<in>set (butlast xs). d < last xs"
proof -
  have q: "xs = butlast xs @ [last xs]" using assms(2) by simp
  have "sorted_wrt (<) (butlast xs @ [last xs])" using assms(1) q by simp
  then show b: "\<forall>d\<in>set (butlast xs). d < last xs" by (simp add: sorted_wrt_append)
  have "set xs = insert (last xs) (set (butlast xs))" by (subst q) simp
  then have "\<forall>d\<in>set xs. d \<le> last xs" using b by auto
  then show "last xs = Max (set xs)"
    using assms(2) by (intro Max_eqI [symmetric]) auto
qed

lemma enqueue_appends:
  assumes cinv: "ctx_inv st" and qinv: "queue_inv st"
    and ev: "evil_C env" and ni: "\<not> is_image_render env"
    and cr: "mat_status st mat = GPU_MAT_CREATED"
    and e: "step env (Enqueue mat) st = Some st'"
  shows "\<exists>cq. compilers st' (Suc (next_ptr st)) = Some cq
     \<and> job_customdata st' = Some (Suc (next_ptr st))
     \<and> deferred_shaders st' (next_ptr st) = Some mat
     \<and> queue cq = (case job_customdata st of None \<Rightarrow> []
                    | Some oc \<Rightarrow> (case compilers st oc of None \<Rightarrow> [] | Some ocp \<Rightarrow> queue ocp))
                   @ [next_ptr st]
     \<and> (\<forall>d\<in>set (butlast (queue cq)). d < next_ptr st)"
proof -
  let ?st0 = "set_status mat GPU_MAT_QUEUED st"
  have a: "drw_deferred_shader_add env [] mat True ?st0 = Some st'"
    using e ni cr by (auto simp: step_def from_material_deferred_created split: if_splits)
  show ?thesis
  proof (cases "job_customdata st")
    case None
    then have "job_customdata ?st0 = None" by simp
    from add_deferred_fresh [OF ev ni this, of "[]" mat]
    obtain cp where "compilers st' = (compilers st)(Suc (next_ptr st) \<mapsto> cp)"
      "queue cp = [next_ptr st]" "job_customdata st' = Some (Suc (next_ptr st))"
      "deferred_shaders st' = (deferred_shaders st)(next_ptr st \<mapsto> mat)"
      using a by auto
    then show ?thesis using None by simp
  next
    case (Some oc)
    then have j0: "job_customdata ?st0 = Some oc" by simp
    have "\<exists>ocp. compilers st oc = Some ocp \<and> list_lock ocp = None"
    proof (rule ccontr)
      assume "\<not> ?thesis"
      then have "compilers ?st0 oc = None \<or> (\<exists>ocp. compilers ?st0 oc = Some ocp \<and> list_lock ocp \<noteq> None)"
        by auto
      from add_deferred_blocked [OF ev ni j0 this] show False using a by simp
    qed
    then obtain ocp where o: "compilers st oc = Some ocp" and l: "list_lock ocp = None" by blast
    have go: "gl_context ocp \<noteq> None" using cinv o unfolding ctx_inv_def by blast
    have o0: "compilers ?st0 oc = Some ocp" using o by simp
    from add_deferred_migrate [OF ev ni j0 o0 l go, of "[]" mat]
    obtain cp where "compilers st' = (compilers st)
           (oc \<mapsto> ocp\<lparr>queue := [], own_context := False\<rparr>, Suc (next_ptr st) \<mapsto> cp)"
      "queue cp = queue ocp @ [next_ptr st]" "job_customdata st' = Some (Suc (next_ptr st))"
      "deferred_shaders st' = (deferred_shaders st)(next_ptr st \<mapsto> mat)"
      using a by auto
    then show ?thesis using Some o queue_inv_comp(2) [OF qinv o] by simp
  qed
qed

text \<open>
  C9. In every reachable state: when the worker of a compiler stands at the head of
  its loop with the list lock free and the queue not empty, its step pops the last
  element of the queue, which is the request with the greatest pointer, the one
  enqueued last, and leaves the rest; and a deferred request puts its new request
  behind all requests of the queue it takes over.
\<close>

theorem worker_pops_queue_tail:
  assumes run: "exec env acts init_world = Some st"
  shows "(\<forall>c cp. compilers st c = Some cp \<and> queue cp \<noteq> [] \<and> worker st c = W_Top
            \<and> list_lock cp = None \<longrightarrow>
          (\<exists>st' cp'. worker_step env c False st = Some st' \<and> compilers st' c = Some cp'
             \<and> mat_compiling cp' = Some (last (queue cp))
             \<and> queue cp' = butlast (queue cp)
             \<and> last (queue cp) = Max (set (queue cp))
             \<and> (\<forall>d\<in>set (queue cp'). d < last (queue cp))))
     \<and> (\<forall>mat st'. evil_C env \<and> \<not> is_image_render env \<and> mat_status st mat = GPU_MAT_CREATED
            \<and> step env (Enqueue mat) st = Some st' \<longrightarrow>
          (\<exists>cq. compilers st' (Suc (next_ptr st)) = Some cq
             \<and> job_customdata st' = Some (Suc (next_ptr st))
             \<and> deferred_shaders st' (next_ptr st) = Some mat
             \<and> queue cq = (case job_customdata st of None \<Rightarrow> []
                            | Some oc \<Rightarrow> (case compilers st oc of None \<Rightarrow> []
                                          | Some ocp \<Rightarrow> queue ocp))
                           @ [next_ptr st]
             \<and> (\<forall>d\<in>set (butlast (queue cq)). d < next_ptr st)))"
proof -
  have cinv: "ctx_inv st" using ctx_inv_exec [OF ctx_inv_init run] .
  have qinv: "queue_inv st" using queue_inv_exec [OF ctx_inv_init queue_inv_init run] .
  have A: "\<exists>st' cp'. worker_step env c False st = Some st' \<and> compilers st' c = Some cp'
             \<and> mat_compiling cp' = Some (last (queue cp))
             \<and> queue cp' = butlast (queue cp)
             \<and> last (queue cp) = Max (set (queue cp))
             \<and> (\<forall>d\<in>set (queue cp'). d < last (queue cp))"
    if h: "compilers st c = Some cp \<and> queue cp \<noteq> [] \<and> worker st c = W_Top \<and> list_lock cp = None"
    for c cp
  proof -
    let ?cp' = "cp\<lparr>mat_compiling := Some (last (queue cp)), queue := butlast (queue cp),
                   shaders_done := shaders_done cp + 1, list_lock := Some (WorkerThread c)\<rparr>"
    have "worker_step env c False st = Some (set_worker c W_WantMutex (set_compiler c ?cp' st))"
      using h by (simp add: worker_step_def BLI_poptail_def)
    moreover have "compilers (set_worker c W_WantMutex (set_compiler c ?cp' st)) c = Some ?cp'"
      by simp
    ultimately show ?thesis
      using sorted_last_Max [OF queue_inv_comp(1) [OF qinv, of c cp]] h by auto
  qed
  have B: "\<exists>cq. compilers st' (Suc (next_ptr st)) = Some cq
             \<and> job_customdata st' = Some (Suc (next_ptr st))
             \<and> deferred_shaders st' (next_ptr st) = Some mat
             \<and> queue cq = (case job_customdata st of None \<Rightarrow> []
                            | Some oc \<Rightarrow> (case compilers st oc of None \<Rightarrow> []
                                          | Some ocp \<Rightarrow> queue ocp))
                           @ [next_ptr st]
             \<and> (\<forall>d\<in>set (butlast (queue cq)). d < next_ptr st)"
    if "evil_C env \<and> \<not> is_image_render env \<and> mat_status st mat = GPU_MAT_CREATED
            \<and> step env (Enqueue mat) st = Some st'" for mat st'
    using enqueue_appends [OF cinv qinv] that by blast
  show ?thesis using A B by blast
qed


lemma two_requests:
  "\<exists>st cp. exec interactive_env [Enqueue 7, Enqueue 8, Work 15 False] init_world = Some st
     \<and> compilers st 15 = Some cp \<and> queue cp = [10, 14] \<and> worker st 15 = W_Top
     \<and> list_lock cp = None"
  by (simp add: run_defs worker_step_def set_worker_def)

theorem worker_pops_queue_tail_witness:
  "\<exists>st cp st' cp'.
     exec interactive_env [Enqueue 7, Enqueue 8, Work 15 False] init_world = Some st
     \<and> compilers st 15 = Some cp \<and> queue cp = [10, 14] \<and> queue cp \<noteq> []
     \<and> worker st 15 = W_Top \<and> list_lock cp = None
     \<and> worker_step interactive_env 15 False st = Some st' \<and> compilers st' 15 = Some cp'
     \<and> mat_compiling cp' = Some 14 \<and> queue cp' = [10]"
proof -
  obtain st cp where e: "exec interactive_env [Enqueue 7, Enqueue 8, Work 15 False] init_world = Some st"
    and f: "compilers st 15 = Some cp" "queue cp = [10, 14]" "worker st 15 = W_Top"
      "list_lock cp = None"
    using two_requests by blast
  have ne: "queue cp \<noteq> []" using f by simp
  from worker_pops_queue_tail [OF e] f ne
  obtain st' cp' where "worker_step interactive_env 15 False st = Some st'"
    "compilers st' 15 = Some cp'" "mat_compiling cp' = Some (last (queue cp))"
    "queue cp' = butlast (queue cp)"
    by blast
  then show ?thesis
    using e f ne by (intro exI [of _ st] exI [of _ cp] exI [of _ st'] exI [of _ cp']) simp
qed


section \<open>Removal and the running compile\<close>

text \<open>
  C1, at the failing input. The material 7 is requested and the worker of its compiler
  (11) has popped the request and holds the compilation lock, the call of the GPU not
  yet returned. A second request (material 8) makes a new compiler (15) the custom
  data of the job. \<^verbatim>\<open>DRW_deferred_shader_remove\<close> for material 7 then visits the
  compiler of the job, finds nothing and returns, while compiler 11 still compiles
  material 7. Were the job to hand out compiler 11 instead, the removal of material 8
  would return with the request of 8 still in the queue of compiler 15.
\<close>

theorem remove_returns_during_compile:
  "(\<exists>st cp. exec interactive_env
        [Enqueue 7, Work 11 False, Work 11 False, Work 11 False, Enqueue 8,
         Remove 7 [Some 15], RemoveStep, RemoveStep] init_world = Some st
      \<and> job_customdata st = Some 15 \<and> remover st = R_Idle
      \<and> worker st 11 = W_Compiling \<and> compilers st 11 = Some cp
      \<and> mat_compiling cp = Some 10 \<and> compilation_lock cp = Some (WorkerThread 11)
      \<and> deferred_shaders st 10 = Some 7 \<and> gpu_calls st = [])
   \<and> (\<exists>st cq. exec interactive_env
        [Enqueue 7, Work 11 False, Work 11 False, Work 11 False, Enqueue 8,
         Remove 8 [Some 11], RemoveStep, RemoveStep] init_world = Some st
      \<and> remover st = R_Idle \<and> compilers st 15 = Some cq
      \<and> queue cq = [14] \<and> deferred_shaders st 14 = Some 8)"
  by (simp add: run_defs worker_step_def remover_step_def set_worker_def BLI_poptail_def)


lemma lock_inv_update:
  assumes inv: "lock_inv st" and cp: "compilers st c = Some cp"
    and comps: "compilers st' = (compilers st)(c \<mapsto> cp')"
    and wrk: "\<forall>x. x \<noteq> c \<longrightarrow> worker st' x = worker st x"
    and a: "worker st' c = W_Compiling \<longrightarrow> compilation_lock cp' \<noteq> None"
    and b: "worker st' c = W_WantMutex \<longrightarrow> list_lock cp' = Some (WorkerThread c)"
    and r: "\<forall>m dsh js. remover st' = R_Wait m c dsh js \<longrightarrow> list_lock cp' = Some MainThread"
    and ro: "\<forall>m x dsh js. x \<noteq> c \<and> remover st' = R_Wait m x dsh js \<longrightarrow> remover st = remover st'"
  shows "lock_inv st'"
  unfolding lock_inv_def
proof (intro allI impI)
  fix x xp assume x: "compilers st' x = Some xp"
  show "(worker st' x = W_Compiling \<longrightarrow> compilation_lock xp \<noteq> None)
        \<and> (worker st' x = W_WantMutex \<longrightarrow> list_lock xp = Some (WorkerThread x))
        \<and> (\<forall>m dsh js. remover st' = R_Wait m x dsh js \<longrightarrow> list_lock xp = Some MainThread)"
  proof (cases "x = c")
    case True
    then have "xp = cp'" using x comps by simp
    then show ?thesis using True a b r by simp
  next
    case False
    then have o: "compilers st x = Some xp" using x comps by simp
    have "\<forall>m dsh js. remover st' = R_Wait m x dsh js \<longrightarrow> list_lock xp = Some MainThread"
      using inv o ro False unfolding lock_inv_def by metis
    then show ?thesis using inv o wrk False unfolding lock_inv_def by simp
  qed
qed

lemma lock_inv_same:
  assumes "lock_inv st" and "compilers st' = compilers st" and "worker st' = worker st"
    and "\<forall>m x dsh js. remover st' = R_Wait m x dsh js \<longrightarrow> remover st = remover st'"
  shows "lock_inv st'"
  using assms unfolding lock_inv_def by metis

lemma lock_inv_comp:
  assumes "lock_inv st" and "compilers st c = Some cp"
  shows "worker st c = W_Compiling \<longrightarrow> compilation_lock cp \<noteq> None"
    and "worker st c = W_WantMutex \<longrightarrow> list_lock cp = Some (WorkerThread c)"
    and "\<forall>m dsh js. remover st = R_Wait m c dsh js \<longrightarrow> list_lock cp = Some MainThread"
  using assms unfolding lock_inv_def by blast+

lemma lock_inv_worker:
  assumes inv: "lock_inv st" and e: "worker_step env c stop st = Some st'"
  shows "lock_inv st'"
  using e
proof (cases rule: worker_step_cases)
  case (start cp)
  then show ?thesis
    using lock_inv_comp [OF inv start(1)]
    by (intro lock_inv_update [OF inv start(1), where cp' = cp]) auto
next
  case (stopped cp)
  then show ?thesis
    using lock_inv_comp [OF inv stopped(1)]
    by (intro lock_inv_update [OF inv stopped(1), where cp' = cp]) auto
next
  case (drained cp)
  then show ?thesis
    using lock_inv_comp [OF inv drained(1)]
    by (intro lock_inv_update [OF inv drained(1),
          where cp' = "cp\<lparr>mat_compiling := None, queue := []\<rparr>"]) auto
next
  case (pop cp)
  then show ?thesis
    using lock_inv_comp [OF inv pop(1)]
    by (intro lock_inv_update [OF inv pop(1),
          where cp' = "cp\<lparr>mat_compiling := Some (last (queue cp)), queue := butlast (queue cp),
                          shaders_done := shaders_done cp + 1,
                          list_lock := Some (WorkerThread c)\<rparr>"]) auto
next
  case (mutex cp)
  then show ?thesis
    using lock_inv_comp [OF inv mutex(1)]
    by (intro lock_inv_update [OF inv mutex(1),
          where cp' = "cp\<lparr>compilation_lock := Some (WorkerThread c), list_lock := None\<rparr>"])
       auto
next
  case (compile cp d mat)
  then show ?thesis
    using lock_inv_comp [OF inv compile(1)]
    by (intro lock_inv_update [OF inv compile(1), where cp' = cp]) auto
next
  case (unlock cp)
  then show ?thesis
    using lock_inv_comp [OF inv unlock(1)]
    by (intro lock_inv_update [OF inv unlock(1), where cp' = "cp\<lparr>compilation_lock := None\<rparr>"])
       auto
next
  case (conclude cp d mat)
  then show ?thesis
    using lock_inv_comp [OF inv conclude(1)]
    by (intro lock_inv_update [OF inv conclude(1),
          where cp' = "cp\<lparr>queue_conclude := BLI_addtail (queue_conclude cp) d,
                          mat_compiling := None\<rparr>"]) auto
next
  case (discard cp d mat)
  then show ?thesis
    using lock_inv_comp [OF inv discard(1)]
    by (intro lock_inv_update [OF inv discard(1), where cp' = "cp\<lparr>mat_compiling := None\<rparr>"])
       auto
qed

lemma lock_inv_remover:
  assumes inv: "lock_inv st" and e: "remover_step st = Some st'"
  shows "lock_inv st'"
  using e
proof (cases rule: remover_step_cases)
  case (ret mat)
  then show ?thesis by (intro lock_inv_same [OF inv]) auto
next
  case (skip mat js)
  then show ?thesis by (intro lock_inv_same [OF inv]) auto
next
  case (visit mat c js cp dsh)
  then show ?thesis
    using lock_inv_comp [OF inv visit(2)]
    by (intro lock_inv_update [OF inv visit(2),
          where cp' = "cp\<lparr>queue := (case dsh of None \<Rightarrow> queue cp
                                    | Some d \<Rightarrow> BLI_remlink (queue cp) d)\<rparr>"]) auto
next
  case (block mat c js cp dsh)
  then show ?thesis
    using lock_inv_comp [OF inv block(2)]
    by (intro lock_inv_update [OF inv block(2),
          where cp' = "cp\<lparr>queue := (case dsh of None \<Rightarrow> queue cp
                                    | Some d \<Rightarrow> BLI_remlink (queue cp) d),
                        list_lock := Some MainThread\<rparr>"]) auto
next
  case (wake mat c dsh js cp)
  then show ?thesis
    using lock_inv_comp [OF inv wake(2)]
    by (intro lock_inv_update [OF inv wake(2), where cp' = "cp\<lparr>list_lock := None\<rparr>"]) auto
qed


lemma lock_inv_enqueue:
  assumes cinv: "ctx_inv st" and inv: "lock_inv st" and idle: "remover st = R_Idle"
    and e: "DRW_shader_from_material env [] mat True st = Some st'"
  shows "lock_inv st'"
  using e
proof (cases rule: enqueue_cases)
  case same
  then show ?thesis using inv by simp
next
  case sync
  then show ?thesis by (intro lock_inv_same [OF inv]) (auto simp: only_compiled_def)
next
  case enq
  let ?st0 = "set_status mat GPU_MAT_QUEUED st"
  show ?thesis
  proof (cases "job_customdata st")
    case None
    then have "job_customdata ?st0 = None" by simp
    from add_deferred_fresh [OF enq(1,2) this, of "[]" mat]
    obtain cp where c: "compilers st' = (compilers st)(Suc (next_ptr st) \<mapsto> cp)"
      and w: "worker st' = (worker st)(Suc (next_ptr st) := W_NotStarted)"
      and r: "remover st' = remover st"
      using enq(4) by auto
    show ?thesis
      unfolding lock_inv_def
    proof (intro allI impI)
      fix x xp assume x: "compilers st' x = Some xp"
      show "(worker st' x = W_Compiling \<longrightarrow> compilation_lock xp \<noteq> None)
        \<and> (worker st' x = W_WantMutex \<longrightarrow> list_lock xp = Some (WorkerThread x))
        \<and> (\<forall>m dsh js. remover st' = R_Wait m x dsh js \<longrightarrow> list_lock xp = Some MainThread)"
      proof (cases "x = Suc (next_ptr st)")
        case True
        then show ?thesis using w r idle by simp
      next
        case False
        then have "compilers st x = Some xp" using x c by simp
        then show ?thesis using lock_inv_comp [OF inv] w r idle False by simp
      qed
    qed
  next
    case (Some oc)
    then have j0: "job_customdata ?st0 = Some oc" by simp
    have "\<exists>ocp. compilers st oc = Some ocp \<and> list_lock ocp = None"
    proof (rule ccontr)
      assume "\<not> ?thesis"
      then have "compilers ?st0 oc = None \<or> (\<exists>ocp. compilers ?st0 oc = Some ocp \<and> list_lock ocp \<noteq> None)"
        by auto
      from add_deferred_blocked [OF enq(1,2) j0 this] show False using enq(4) by simp
    qed
    then obtain ocp where o: "compilers st oc = Some ocp" and l: "list_lock ocp = None" by blast
    have go: "gl_context ocp \<noteq> None" using cinv o unfolding ctx_inv_def by blast
    have lt: "oc < next_ptr st" using cinv o unfolding ctx_inv_def by blast
    have o0: "compilers ?st0 oc = Some ocp" using o by simp
    from add_deferred_migrate [OF enq(1,2) j0 o0 l go, of "[]" mat]
    obtain cp where c: "compilers st' = (compilers st)
           (oc \<mapsto> ocp\<lparr>queue := [], own_context := False\<rparr>, Suc (next_ptr st) \<mapsto> cp)"
      and w: "worker st' = (worker st)(Suc (next_ptr st) := W_NotStarted)"
      and r: "remover st' = remover st"
      using enq(4) by auto
    show ?thesis
      unfolding lock_inv_def
    proof (intro allI impI)
      fix x xp assume x: "compilers st' x = Some xp"
      consider "x = Suc (next_ptr st)" | "x \<noteq> Suc (next_ptr st)" "x = oc"
        | "x \<noteq> Suc (next_ptr st)" "x \<noteq> oc" by blast
      then show "(worker st' x = W_Compiling \<longrightarrow> compilation_lock xp \<noteq> None)
        \<and> (worker st' x = W_WantMutex \<longrightarrow> list_lock xp = Some (WorkerThread x))
        \<and> (\<forall>m dsh js. remover st' = R_Wait m x dsh js \<longrightarrow> list_lock xp = Some MainThread)"
      proof cases
        case 1
        then show ?thesis using w r idle by simp
      next
        case 2
        then have "xp = ocp\<lparr>queue := [], own_context := False\<rparr>" using x c by simp
        then show ?thesis using lock_inv_comp [OF inv o] w r idle 2 by simp
      next
        case 3
        then have "compilers st x = Some xp" using x c by simp
        then show ?thesis using lock_inv_comp [OF inv] w r idle 3 by simp
      qed
    qed
  qed
qed

lemma lock_inv_step:
  assumes cinv: "ctx_inv st" and inv: "lock_inv st" and e: "step env a st = Some st'"
  shows "lock_inv st'"
proof (cases a)
  case (Enqueue mat)
  then show ?thesis
    using e lock_inv_enqueue [OF cinv inv] by (auto simp: step_def split: if_splits)
next
  case (Remove mat jobs)
  then have "st' = st\<lparr>remover := R_Visit mat jobs\<rparr>"
    using e by (auto simp: step_def split: if_splits)
  then show ?thesis by (intro lock_inv_same [OF inv]) auto
next
  case RemoveStep
  then show ?thesis using e inv lock_inv_remover by (simp add: step_def)
next
  case (Work c stop)
  then show ?thesis using e lock_inv_worker [OF inv] by (simp add: step_def)
next
  case (Teardown c)
  then obtain st1 where t: "drw_deferred_shader_compilation_free env c st = Some st1"
    and s: "st' = (if job_customdata st1 = Some c then st1\<lparr>job_customdata := None\<rparr> else st1)"
    and idle: "remover st = R_Idle"
    using e by (auto simp: step_def split: if_splits option.splits)
  from t obtain cp where "compilers st1 = (compilers st)(c := None)" "worker st1 = worker st"
    "remover st1 = remover st"
    by (rule teardown_Some)
  then show ?thesis using inv s idle unfolding lock_inv_def by (auto split: if_splits)
qed

lemma lock_inv_exec:
  "ctx_inv st \<Longrightarrow> lock_inv st \<Longrightarrow> exec env acts st = Some st' \<Longrightarrow> lock_inv st'"
proof (induction acts arbitrary: st)
  case Nil
  then show ?case by simp
next
  case (Cons a acts)
  then obtain st1 where s: "step env a st = Some st1" and r: "exec env acts st1 = Some st'"
    by (auto split: option.splits)
  show ?case
    using Cons.IH [OF ctx_inv_step [OF Cons.prems(1) s] lock_inv_step [OF Cons.prems(1,2) s] r] .
qed

lemma lock_inv_init: "lock_inv init_world"
  by (simp add: lock_inv_def init_world_def)

text \<open>
  What \<^verbatim>\<open>DRW_deferred_shader_remove\<close> does keep, for the compiler it visits: no step of
  it calls the GPU; a request of the material that sits in the queue of the compiler
  is unlinked by the step that visits the compiler and freed when the visit ends; and
  the step with which
  the visit of a compiler ends leaves no compile of the material running in that
  compiler.
\<close>

lemma remove_visited_compiler:
  assumes run: "exec env acts init_world = Some st"
    and e: "remover_step st = Some st'"
    and v: "remover st = R_Visit mat (Some c # js) \<or> (\<exists>dsh. remover st = R_Wait mat c dsh js)"
  shows "gpu_calls st' = gpu_calls st"
    and "remover st' = R_Visit mat js \<longrightarrow> \<not> compile_running st' c mat"
    and "\<forall>cp d. remover st = R_Visit mat (Some c # js) \<and> compilers st c = Some cp
           \<and> BLI_findptr (queue cp) (deferred_shaders st) mat = Some d \<longrightarrow>
         (remover st' = R_Visit mat js \<longrightarrow> deferred_shaders st' d = None)
         \<and> (\<exists>cp'. compilers st' c = Some cp' \<and> queue cp' = BLI_remlink (queue cp) d)"
    and "\<forall>d. remover st = R_Wait mat c (Some d) js \<longrightarrow> deferred_shaders st' d = None"
proof -
  have linv: "lock_inv st" using lock_inv_exec [OF ctx_inv_init lock_inv_init run] .
  show "gpu_calls st' = gpu_calls st"
    using e by (cases rule: remover_step_cases) auto
  show "remover st' = R_Visit mat js \<longrightarrow> \<not> compile_running st' c mat"
    using e
  proof (cases rule: remover_step_cases)
    case (ret m)
    then show ?thesis by simp
  next
    case (skip m js')
    then show ?thesis using v by auto
  next
    case (visit m c' js' cp dsh)
    then have eq: "m = mat" "c' = c" using v by auto
    have nw: "worker st c \<noteq> W_WantMutex" using lock_inv_comp(2) [OF linv visit(2)] visit(3) eq by auto
    show ?thesis
      using visit eq nw
      by (auto simp: compile_running_def split: option.splits)
  next
    case (block m c' js' cp dsh)
    then show ?thesis by simp
  next
    case (wake m c' dsh js' cp)
    then have eq: "m = mat" "c' = c" using v by auto
    have "list_lock cp = Some MainThread" using lock_inv_comp(3) [OF linv wake(2)] wake(1) by blast
    then have nw: "worker st c \<noteq> W_WantMutex" using lock_inv_comp(2) [OF linv wake(2)] eq by auto
    have nc: "worker st c \<noteq> W_Compiling" using lock_inv_comp(1) [OF linv wake(2)] wake(3) eq by auto
    show ?thesis
      using wake eq nw nc by (auto simp: compile_running_def split: option.splits)
  qed
  show "\<forall>cp d. remover st = R_Visit mat (Some c # js) \<and> compilers st c = Some cp
           \<and> BLI_findptr (queue cp) (deferred_shaders st) mat = Some d \<longrightarrow>
         (remover st' = R_Visit mat js \<longrightarrow> deferred_shaders st' d = None)
         \<and> (\<exists>cp'. compilers st' c = Some cp' \<and> queue cp' = BLI_remlink (queue cp) d)"
    using e by (cases rule: remover_step_cases) auto
  show "\<forall>d. remover st = R_Wait mat c (Some d) js \<longrightarrow> deferred_shaders st' d = None"
    using e by (cases rule: remover_step_cases) auto
qed


end
